theory Spec2Isabelle
  imports Main "HOL-Library.AList"
begin

section \<open>Values, errors and JavaScript maps\<close>

text \<open>
  JSON-like runtime values of the TypeScript sources (\<open>unknown\<close>, \<open>any\<close>).
  \<open>JUndefined\<close> is JavaScript's \<open>undefined\<close>.  Strings are byte strings (UTF-8);
  numbers are integers (no claim below depends on floating point).
\<close>

datatype json =
    JUndefined
  | JNull
  | JBool bool
  | JNum int
  | JStr string
  | JArr "json list"
  | JObj "(string \<times> json) list"

text \<open>
  What a collaborator (tool, hook, provider) can throw: an \<open>Error\<close> instance with its
  message, or any other value.
\<close>

datatype thrown = ErrorObj string | NonError json

text \<open>
  The errors raised by the sources themselves, one constructor per \<open>throw\<close> site
  (the Chinese message of the site is given in the comment of the function that raises it),
  \<open>TypeError\<close> for the runtime's own error on reading a property of \<open>undefined\<close>, and
  \<open>Propagated\<close> for an error of a collaborator that is not caught.
\<close>

datatype error =
    ToolNotFound string
  | NoLLMProvider
  | Abort
  | WorkflowCancelled
  | TypeError string
  | InvalidWorkflow
  | Terminated
  | CyclicDependency string
  | NodeNotFound string
  | NodeExists string
  | HasDependents string "string list"
  | RegistryToolNotFound string
  | Propagated thrown

text \<open>
  A JavaScript \<open>Map\<close> keeps its keys in insertion order; \<open>set\<close> on a key that is
  present replaces the value in place, \<open>set\<close> on a new key appends.  An association
  list with \<^const>\<open>AList.update\<close> has exactly this behaviour.
\<close>

type_synonym ('k, 'v) jsmap = "('k \<times> 'v) list"

definition Map_set :: "'k \<Rightarrow> 'v \<Rightarrow> ('k, 'v) jsmap \<Rightarrow> ('k, 'v) jsmap" where
  "Map_set k v m = AList.update k v m"

definition Map_get :: "('k, 'v) jsmap \<Rightarrow> 'k \<Rightarrow> 'v option" where
  "Map_get m k = map_of m k"

definition Map_has :: "('k, 'v) jsmap \<Rightarrow> 'k \<Rightarrow> bool" where
  "Map_has m k = (k \<in> fst ` set m)"

definition Map_delete :: "'k \<Rightarrow> ('k, 'v) jsmap \<Rightarrow> ('k, 'v) jsmap" where
  "Map_delete k m = AList.delete k m"

definition Map_values :: "('k, 'v) jsmap \<Rightarrow> 'v list" where
  "Map_values m = map snd m"

definition Map_keys :: "('k, 'v) jsmap \<Rightarrow> 'k list" where
  "Map_keys m = map fst m"

section \<open>Execution context and tools\<close>

text \<open>
  The mutable part of \<open>ExecutionContext\<close>: the workflow-wide \<open>variables\<close> map, the
  control flags \<open>__skip\<close> (set by \<open>next()\<close>) and \<open>__abort\<close>, whether
  \<open>signal.aborted\<close> holds, and the \<open>abort\<close> field of the workflow the context
  belongs to (set, together with \<open>__abort\<close>, by \<open>abortAll()\<close>, and alone by
  \<open>workflow.cancel()\<close>).  Keys of \<open>variables\<close> are runtime values (a \<open>Map\<close>
  accepts any key).
\<close>

record exec_context =
  variables :: "(json, json) jsmap"
  skip_flag :: bool
  abort_flag :: bool
  signal_aborted :: bool
  workflow_abort :: bool

text \<open>
  A \<open>Tool\<close>: \<open>execute(context, params)\<close> may mutate the context and either returns a
  value or throws.
\<close>

record tool =
  name :: string
  description :: string
  input_schema :: json
  execute :: "exec_context \<Rightarrow> json \<Rightarrow> exec_context \<times> (thrown + json)"

section \<open>Tool registry\<close>

text \<open>\<open>ToolRegistry\<close>: \<open>private tools: Map<string, Tool>\<close>.\<close>

type_synonym tool_registry = "(string, tool) jsmap"

text \<open>\<open>registerTool(tool) { this.tools.set(tool.name, tool); }\<close>: no failing branch.\<close>

definition registerTool :: "tool_registry \<Rightarrow> tool \<Rightarrow> error + tool_registry" where
  "registerTool tools t = Inr (Map_set (name t) t tools)"

definition unregisterTool :: "tool_registry \<Rightarrow> string \<Rightarrow> bool \<times> tool_registry" where
  "unregisterTool tools toolName = (Map_has tools toolName, Map_delete toolName tools)"

definition getTool :: "tool_registry \<Rightarrow> string \<Rightarrow> error + tool" where
  "getTool tools toolName =
     (case Map_get tools toolName of
        None \<Rightarrow> Inl (RegistryToolNotFound toolName)
      | Some t \<Rightarrow> Inr t)"

definition hasTools :: "tool_registry \<Rightarrow> string list \<Rightarrow> bool" where
  "hasTools tools toolNames = list_all (Map_has tools) toolNames"

definition getToolEnum :: "tool_registry \<Rightarrow> string list" where
  "getToolEnum tools = Map_keys tools"

text \<open>The mock tool of the registry's tests: \<open>execute\<close> returns \<open>{ executed: true }\<close>.\<close>

definition MockTool :: "string \<Rightarrow> string \<Rightarrow> tool" where
  "MockTool n d =
     \<lparr> name = n, description = d, input_schema = JObj [],
       execute = (\<lambda>c p. (c, Inr (JObj [(''executed'', JBool True)]))) \<rparr>"


section \<open>Workflow: nodes and structural operations\<close>

text \<open>
  \<open>NodeOutput\<close> (\<open>{ name, description, value }\<close>) and \<open>WorkflowNode\<close>.  Of a node the
  engine uses the id, the dependency ids, \<open>input.items\<close>, \<open>output\<close> (field \<open>output_obj\<close>) and
  \<open>action.execute(input, output, context)\<close>, which may mutate the context and either
  returns the output value or throws.
\<close>

record node_output =
  output_name :: string
  output_description :: string
  output_value :: json

record workflow_node =
  node_id :: string
  dependencies :: "string list"
  input_items :: "node_output list"
  output_obj :: node_output
  action :: "node_output list \<Rightarrow> node_output \<Rightarrow> exec_context \<Rightarrow> exec_context \<times> (thrown + json)"

text \<open>\<open>Array.prototype.find\<close> and \<open>findIndex\<close> (\<open>None\<close> for \<open>undefined\<close> and \<open>-1\<close>).\<close>

fun find_first :: "('a \<Rightarrow> bool) \<Rightarrow> 'a list \<Rightarrow> 'a option" where
  "find_first P [] = None"
| "find_first P (x # xs) = (if P x then Some x else find_first P xs)"

fun findIndex :: "('a \<Rightarrow> bool) \<Rightarrow> 'a list \<Rightarrow> nat option" where
  "findIndex P [] = None"
| "findIndex P (x # xs) = (if P x then Some 0 else map_option Suc (findIndex P xs))"

text \<open>\<open>getNode(nodeId)\<close>: the first node with this id, or the error "node not found".\<close>

definition getNode :: "workflow_node list \<Rightarrow> string \<Rightarrow> error + workflow_node" where
  "getNode nodes nodeId =
     (case find_first (\<lambda>n. node_id n = nodeId) nodes of
        None \<Rightarrow> Inl (NodeNotFound nodeId)
      | Some node \<Rightarrow> Inr node)"

text \<open>
  \<open>addNode\<close> and \<open>removeNode\<close> return the error raised, if any, and the node list
  after the call.
\<close>

definition addNode :: "workflow_node list \<Rightarrow> workflow_node \<Rightarrow> error option \<times> workflow_node list" where
  "addNode nodes node =
     (if list_ex (\<lambda>n. node_id n = node_id node) nodes
      then (Some (NodeExists (node_id node)), nodes)
      else (None, nodes @ [node]))"

definition removeNode :: "workflow_node list \<Rightarrow> string \<Rightarrow> error option \<times> workflow_node list" where
  "removeNode nodes nodeId =
     (case findIndex (\<lambda>n. node_id n = nodeId) nodes of
        None \<Rightarrow> (Some (NodeNotFound nodeId), nodes)
      | Some index \<Rightarrow>
          (let dependentNodes = filter (\<lambda>n. nodeId \<in> set (dependencies n)) nodes
           in if length dependentNodes > 0
              then (Some (HasDependents nodeId (map node_id dependentNodes)), nodes)
              else (None, take index nodes @ drop (Suc index) nodes)))"

subsection \<open>\<open>validateDAG\<close>\<close>

text \<open>
  The depth-first search of \<open>validateDAG\<close>.  The state is the pair of the mutable sets
  \<open>visited\<close> and \<open>recursionStack\<close>.  \<open>hasCycle\<close> is recursive through the loop over
  the dependencies, \<open>hasCycle_deps\<close>, which returns at the first \<open>true\<close>.  The recursion
  is bounded by a fuel argument (\<open>None\<close>: fuel exhausted); \<open>validateDAG\<close> starts it with
  more fuel than there are nodes, which is proved to be enough below.  An error of
  \<open>getNode\<close> propagates.
\<close>

type_synonym dfs_state = "string set \<times> string set"

fun hasCycle :: "nat \<Rightarrow> workflow_node list \<Rightarrow> string \<Rightarrow> dfs_state \<Rightarrow> (error + bool \<times> dfs_state) option"
  and hasCycle_deps :: "nat \<Rightarrow> workflow_node list \<Rightarrow> string list \<Rightarrow> dfs_state \<Rightarrow> (error + bool \<times> dfs_state) option"
where
  "hasCycle 0 nodes nodeId s = None"
| "hasCycle (Suc k) nodes nodeId (visited, recursionStack) =
     (if nodeId \<in> recursionStack then Some (Inr (True, (visited, recursionStack)))
      else if nodeId \<in> visited then Some (Inr (False, (visited, recursionStack)))
      else
        (case getNode nodes nodeId of
           Inl e \<Rightarrow> Some (Inl e)
         | Inr node \<Rightarrow>
             (case hasCycle_deps k nodes (dependencies node)
                     (insert nodeId visited, insert nodeId recursionStack) of
                None \<Rightarrow> None
              | Some (Inl e) \<Rightarrow> Some (Inl e)
              | Some (Inr (True, s')) \<Rightarrow> Some (Inr (True, s'))
              | Some (Inr (False, (visited', recursionStack'))) \<Rightarrow>
                  Some (Inr (False, (visited', recursionStack' - {nodeId}))))))"
| "hasCycle_deps k nodes [] s = Some (Inr (False, s))"
| "hasCycle_deps k nodes (depId # rest) s =
     (case hasCycle k nodes depId s of
        None \<Rightarrow> None
      | Some (Inl e) \<Rightarrow> Some (Inl e)
      | Some (Inr (True, s')) \<Rightarrow> Some (Inr (True, s'))
      | Some (Inr (False, s')) \<Rightarrow> hasCycle_deps k nodes rest s')"

text \<open>
  \<open>return !this.nodes.some(node => hasCycle(node.id))\<close>: \<open>some\<close> is the same
  short-circuit loop, over the ids of all nodes, from empty sets.
\<close>

definition validateDAG :: "workflow_node list \<Rightarrow> (error + bool) option" where
  "validateDAG nodes =
     (case hasCycle_deps (Suc (length nodes)) nodes (map node_id nodes) ({}, {}) of
        None \<Rightarrow> None
      | Some (Inl e) \<Rightarrow> Some (Inl e)
      | Some (Inr (b, s)) \<Rightarrow> Some (Inr (\<not> b)))"

text \<open>
  The dependency graph: an edge from an id to each dependency id of the node the id
  resolves to.  A workflow is cyclic when some id reaches itself through one or more edges.
\<close>

definition dep_edges :: "workflow_node list \<Rightarrow> (string \<times> string) set" where
  "dep_edges nodes = {(a, b). \<exists>n. getNode nodes a = Inr n \<and> b \<in> set (dependencies n)}"

definition cyclic :: "workflow_node list \<Rightarrow> bool" where
  "cyclic nodes = (\<exists>a. (a, a) \<in> (dep_edges nodes)\<^sup>+)"


text \<open>The mock node of the workflow tests: its action returns \<open>{ result: id }\<close>.\<close>

definition createMockNode :: "string \<Rightarrow> string list \<Rightarrow> workflow_node" where
  "createMockNode i deps =
     \<lparr> node_id = i, dependencies = deps, input_items = [],
       output_obj = \<lparr> output_name = ''mock_output'', output_description = ''mock'', output_value = JNull \<rparr>,
       action = (\<lambda>inp out c. (c, Inr (JObj [(''result'', JStr i)]))) \<rparr>"


section \<open>Workflow: execution\<close>

text \<open>
  The caller's \<open>WorkflowCallback\<close>: each hook is optional, may mutate the context it is
  given and may throw.  \<open>beforeWorkflow\<close> and \<open>afterWorkflow\<close> receive the workflow; what
  they can change of it here is what a context exposes (variables, abort flag).
\<close>

record workflow_callback =
  beforeWorkflow :: "(exec_context \<Rightarrow> exec_context \<times> thrown option) option"
  beforeSubtask :: "(workflow_node \<Rightarrow> exec_context \<Rightarrow> exec_context \<times> thrown option) option"
  afterSubtask :: "(workflow_node \<Rightarrow> exec_context \<Rightarrow> json \<Rightarrow> exec_context \<times> thrown option) option"
  afterWorkflow :: "(exec_context \<Rightarrow> exec_context \<times> thrown option) option"

text \<open>
  The state of a \<open>WorkflowImpl\<close> during \<open>execute\<close>: the node objects, the \<open>abort\<close> field,
  the shared \<open>variables\<close>, the two local sets \<open>executed\<close> and \<open>executing\<close> of
  \<open>execute\<close>, and (for stating properties only) the log \<open>invoked\<close> of the calls of
  \<open>node.action.execute\<close>: node id and \<open>input.items\<close> at the call, in call order.
\<close>

record workflow =
  wf_nodes :: "workflow_node list"
  wf_abort :: bool
  wf_variables :: "(json, json) jsmap"
  executed :: "string set"
  executing :: "string set"
  invoked :: "(string \<times> node_output list) list"

text \<open>
  \<open>executeNode\<close> is an \<open>async\<close> function: a call runs until its first \<open>await\<close> and
  then yields.  A running call chain (one per terminal node) is a \<open>task\<close>: the stack of
  the callers suspended at \<open>await executeNode(depId)\<close>, each with its node id and the
  dependencies it has still to visit, and the state of the innermost call: suspended at
  one of its other \<open>await\<close>s (with its context), or settled (\<open>None\<close>: resolved,
  \<open>Some e\<close>: rejected with \<open>e\<close>).
\<close>

datatype await_point = BeforeSubtask | ActionExecute | AfterSubtask json

datatype innermost = Suspended string exec_context await_point | Settled "error option"

type_synonym task = "(string \<times> string list) list \<times> innermost"

text \<open>
  The context a hook or an action sees: its own flags, the shared variables, and the
  workflow's abort flag.  \<open>cancel()\<close> and \<open>abortAll()\<close> set \<open>abort\<close> and abort every
  controller together, so the node's \<open>signal.aborted\<close> is read from the same flag.
  \<open>commit\<close> writes the shared part back.
\<close>

definition refresh :: "workflow \<Rightarrow> exec_context \<Rightarrow> exec_context" where
  "refresh st c =
     c\<lparr>variables := wf_variables st, signal_aborted := wf_abort st, workflow_abort := wf_abort st\<rparr>"

definition commit :: "exec_context \<Rightarrow> workflow \<Rightarrow> workflow" where
  "commit c st = st\<lparr>wf_variables := variables c, wf_abort := workflow_abort c\<rparr>"

definition new_context :: "workflow \<Rightarrow> exec_context" where
  "new_context st =
     \<lparr> variables = wf_variables st, skip_flag = False, abort_flag = False,
       signal_aborted = False, workflow_abort = wf_abort st \<rparr>"

text \<open>Assignment to a field of the node object that \<open>getNode\<close> returns.\<close>

fun update_first :: "('a \<Rightarrow> bool) \<Rightarrow> ('a \<Rightarrow> 'a) \<Rightarrow> 'a list \<Rightarrow> 'a list" where
  "update_first P f [] = []"
| "update_first P f (x # xs) = (if P x then f x # xs else x # update_first P f xs)"

definition update_node :: "string \<Rightarrow> (workflow_node \<Rightarrow> workflow_node) \<Rightarrow> workflow \<Rightarrow> workflow" where
  "update_node nodeId f st = st\<lparr>wf_nodes := update_first (\<lambda>n. node_id n = nodeId) f (wf_nodes st)\<rparr>"

text \<open>\<open>for (const depId of node.dependencies) input.items.push(this.getNode(depId).output)\<close>\<close>

fun collect_outputs :: "workflow_node list \<Rightarrow> string list \<Rightarrow> error + node_output list" where
  "collect_outputs nodes [] = Inr []"
| "collect_outputs nodes (depId # rest) =
     (case getNode nodes depId of
        Inl e \<Rightarrow> Inl e
      | Inr depNode \<Rightarrow>
          (case collect_outputs nodes rest of
             Inl e \<Rightarrow> Inl e
           | Inr items \<Rightarrow> Inr (output_obj depNode # items)))"

text \<open>
  After the \<open>beforeSubtask\<close> hook: \<open>__abort\<close> raises "terminated", \<open>__skip\<close> returns
  (leaving \<open>executing\<close> and \<open>executed\<close> as they are), otherwise the action is called and
  awaited.
\<close>

definition executeNode_check :: "string \<Rightarrow> exec_context \<Rightarrow> (string \<times> string list) list \<Rightarrow> workflow \<Rightarrow> task \<times> workflow" where
  "executeNode_check nodeId c stack st =
     (if abort_flag c then ((stack, Settled (Some Terminated)), st)
      else if skip_flag c then ((stack, Settled None), st)
      else
        (case getNode (wf_nodes st) nodeId of
           Inl e \<Rightarrow> ((stack, Settled (Some e)), st)
         | Inr node \<Rightarrow>
             ((stack, Suspended nodeId c ActionExecute),
              st\<lparr>invoked := invoked st @ [(nodeId, input_items node)]\<rparr>)))"

text \<open>
  The part of \<open>executeNode\<close> after the loop over the dependencies: collect the input,
  then \<open>callback && await callback.hooks.beforeSubtask?.(node, context)\<close>, which yields
  only when there is a callback.
\<close>

definition executeNode_body :: "workflow_callback option \<Rightarrow> string \<Rightarrow> (string \<times> string list) list \<Rightarrow> workflow \<Rightarrow> task \<times> workflow" where
  "executeNode_body callback nodeId stack st =
     (case getNode (wf_nodes st) nodeId of
        Inl e \<Rightarrow> ((stack, Settled (Some e)), st)
      | Inr node \<Rightarrow>
          (case collect_outputs (wf_nodes st) (dependencies node) of
             Inl e \<Rightarrow> ((stack, Settled (Some e)), st)
           | Inr items \<Rightarrow>
               (let st' = update_node nodeId (\<lambda>n. n\<lparr>input_items := items\<rparr>) st
                in case callback of
                     None \<Rightarrow> executeNode_check nodeId (new_context st') stack st'
                   | Some cb \<Rightarrow> ((stack, Suspended nodeId (new_context st') BeforeSubtask), st'))))"

text \<open>Facts about \<open>getNode\<close> for the termination of \<open>executeNode\<close>.\<close>

lemma find_first_Some: "find_first P xs = Some x \<Longrightarrow> x \<in> set xs \<and> P x"
  by (induction xs) (auto split: if_splits)

lemma getNode_Inr: "getNode nodes a = Inr n \<Longrightarrow> n \<in> set nodes \<and> node_id n = a"
  by (auto simp: getNode_def split: option.splits dest: find_first_Some)

lemma card_unvisited_less:
  assumes "getNode nodes a = Inr node" "a \<notin> V"
  shows "card (node_id ` set nodes - insert a V) < card (node_id ` set nodes - V)"
proof -
  have "a \<in> node_id ` set nodes - V" using assms getNode_Inr by fastforce
  moreover have "node_id ` set nodes - insert a V = (node_id ` set nodes - V) - {a}" by auto
  moreover have "finite (node_id ` set nodes - V)" by simp
  ultimately show ?thesis
    using card_Diff1_less [of "node_id ` set nodes - V" a] by metis
qed

text \<open>
  A call of \<open>executeNode(nodeId)\<close> from the caller stack \<open>stack\<close>, up to the first
  \<open>await\<close> that yields: the checks of \<open>abort\<close>, \<open>executed\<close> and \<open>executing\<close>, then
  \<open>executing.add(nodeId)\<close> and the first dependency, called at once.
  \<open>executeNode_deps\<close> is the loop over the dependencies, entered at the call and again
  each time the awaited dependency has resolved.
\<close>

function executeNode_call :: "workflow_callback option \<Rightarrow> string \<Rightarrow> (string \<times> string list) list \<Rightarrow> workflow \<Rightarrow> task \<times> workflow"
  and executeNode_deps :: "workflow_callback option \<Rightarrow> string \<Rightarrow> string list \<Rightarrow> (string \<times> string list) list \<Rightarrow> workflow \<Rightarrow> task \<times> workflow"
where
  "executeNode_call callback nodeId stack st =
     (if wf_abort st then ((stack, Settled (Some Terminated)), st)
      else if nodeId \<in> executed st then ((stack, Settled None), st)
      else if nodeId \<in> executing st then ((stack, Settled (Some (CyclicDependency nodeId))), st)
      else
        (case getNode (wf_nodes st) nodeId of
           Inl e \<Rightarrow> ((stack, Settled (Some e)), st)
         | Inr node \<Rightarrow>
             executeNode_deps callback nodeId (dependencies node) stack
               (st\<lparr>executing := insert nodeId (executing st)\<rparr>)))"
| "executeNode_deps callback nodeId [] stack st = executeNode_body callback nodeId stack st"
| "executeNode_deps callback nodeId (depId # rest) stack st =
     executeNode_call callback depId ((nodeId, rest) # stack) st"
  by pat_completeness auto

termination
proof (relation "measure (\<lambda>x. case x of
         Inl (callback, nodeId, stack, st) \<Rightarrow> 2 * card (node_id ` set (wf_nodes st) - executing st)
       | Inr (callback, nodeId, deps, stack, st) \<Rightarrow> 2 * card (node_id ` set (wf_nodes st) - executing st) + 1)")
  show "wf (measure (\<lambda>x. case x of
         Inl (callback, nodeId, stack, st) \<Rightarrow> 2 * card (node_id ` set (wf_nodes st) - executing st)
       | Inr (callback, nodeId, deps, stack, st) \<Rightarrow> 2 * card (node_id ` set (wf_nodes st) - executing st) + 1))"
    by simp
next
  fix callback :: "workflow_callback option" and nodeId stack and st :: workflow and node
  assume "nodeId \<notin> executing st" "getNode (wf_nodes st) nodeId = Inr node"
  from card_unvisited_less [OF this(2,1)]
  show "(Inr (callback, nodeId, dependencies node, stack, st\<lparr>executing := insert nodeId (executing st)\<rparr>),
         Inl (callback, nodeId, stack, st))
        \<in> measure (\<lambda>x. case x of
         Inl (callback, nodeId, stack, st) \<Rightarrow> 2 * card (node_id ` set (wf_nodes st) - executing st)
       | Inr (callback, nodeId, deps, stack, st) \<Rightarrow> 2 * card (node_id ` set (wf_nodes st) - executing st) + 1)"
    by simp
next
  fix callback :: "workflow_callback option" and nodeId depId rest stack and st :: workflow
  show "(Inl (callback, depId, (nodeId, rest) # stack, st), Inr (callback, nodeId, depId # rest, stack, st))
        \<in> measure (\<lambda>x. case x of
         Inl (callback, nodeId, stack, st) \<Rightarrow> 2 * card (node_id ` set (wf_nodes st) - executing st)
       | Inr (callback, nodeId, deps, stack, st) \<Rightarrow> 2 * card (node_id ` set (wf_nodes st) - executing st) + 1)"
    by simp
qed

declare executeNode_call.simps [simp del]


text \<open>
  Resuming a task: the continuation of the innermost call after its \<open>await\<close>.
  \<^item> A settled call hands its result to its caller: a rejection is thrown at the caller's
    \<open>await\<close> and rejects the caller in turn (there is no \<open>try\<close>); a resolution lets
    the caller go on with its next dependency.
  \<^item> After the \<open>beforeSubtask\<close> hook: the checks of \<open>__abort\<close> and \<open>__skip\<close>, then the
    call of the action.
  \<^item> After the action: an error rejects the call; a value is stored in
    \<open>node.output.value\<close>, the node moves from \<open>executing\<close> to \<open>executed\<close>, and the
    \<open>afterSubtask\<close> hook is awaited when there is a callback.
  The effect of a hook or action on the shared state is applied when it completes.
\<close>

definition executeNode_resume :: "workflow_callback option \<Rightarrow> task \<Rightarrow> workflow \<Rightarrow> task \<times> workflow" where
  "executeNode_resume callback t st =
     (case t of
        (stack, Settled r) \<Rightarrow>
          (case stack of
             [] \<Rightarrow> (t, st)
           | (nodeId, rest) # stack' \<Rightarrow>
               (case r of
                  Some e \<Rightarrow> ((stack', Settled (Some e)), st)
                | None \<Rightarrow> executeNode_deps callback nodeId rest stack' st))
      | (stack, Suspended nodeId c BeforeSubtask) \<Rightarrow>
          (case Option.bind callback beforeSubtask of
             None \<Rightarrow> executeNode_check nodeId c stack st
           | Some hook \<Rightarrow>
               (case getNode (wf_nodes st) nodeId of
                  Inl e \<Rightarrow> ((stack, Settled (Some e)), st)
                | Inr node \<Rightarrow>
                    (case hook node (refresh st c) of
                       (c', Some err) \<Rightarrow> ((stack, Settled (Some (Propagated err))), commit c' st)
                     | (c', None) \<Rightarrow> executeNode_check nodeId c' stack (commit c' st))))
      | (stack, Suspended nodeId c ActionExecute) \<Rightarrow>
          (case getNode (wf_nodes st) nodeId of
             Inl e \<Rightarrow> ((stack, Settled (Some e)), st)
           | Inr node \<Rightarrow>
               (case action node (input_items node) (output_obj node) (refresh st c) of
                  (c', Inl err) \<Rightarrow> ((stack, Settled (Some (Propagated err))), commit c' st)
                | (c', Inr v) \<Rightarrow>
                    (let st1 = update_node nodeId
                                 (\<lambda>n. n\<lparr>output_obj := (output_obj n)\<lparr>output_value := v\<rparr>\<rparr>) (commit c' st);
                         st2 = st1\<lparr>executing := executing st1 - {nodeId},
                                   executed := insert nodeId (executed st1)\<rparr>
                     in case callback of
                          None \<Rightarrow> ((stack, Settled None), st2)
                        | Some cb \<Rightarrow> ((stack, Suspended nodeId c' (AfterSubtask v)), st2))))
      | (stack, Suspended nodeId c (AfterSubtask v)) \<Rightarrow>
          (case Option.bind callback afterSubtask of
             None \<Rightarrow> ((stack, Settled None), st)
           | Some hook \<Rightarrow>
               (case getNode (wf_nodes st) nodeId of
                  Inl e \<Rightarrow> ((stack, Settled (Some e)), st)
                | Inr node \<Rightarrow>
                    (case hook node (refresh st c) v of
                       (c', Some err) \<Rightarrow> ((stack, Settled (Some (Propagated err))), commit c' st)
                     | (c', None) \<Rightarrow> ((stack, Settled None), commit c' st)))))"

text \<open>The promise of a task is settled when the outermost call has returned or thrown.\<close>

fun task_settled :: "task \<Rightarrow> bool" where
  "task_settled ([], Settled r) = True"
| "task_settled t = False"

fun task_error :: "task \<Rightarrow> error option" where
  "task_error ([], Settled r) = r"
| "task_error t = None"

text \<open>
  \<open>Promise.all(terminalNodes.map(node => executeNode(node.id)))\<close>: \<open>map\<close> calls
  \<open>executeNode\<close> for every terminal node in turn, each call running up to its first
  yield (\<open>start_all\<close>).  Afterwards the tasks are resumed one at a time, in an order the
  program does not fix (it depends on when the actions complete): an \<open>event\<close> list gives
  the order.  \<open>Cancel\<close> is a call of \<open>workflow.cancel()\<close> from outside.  The third
  component is the first rejection among the tasks, with which \<open>Promise.all\<close> rejects.
\<close>

datatype event = Resume nat | Cancel

fun start_all :: "workflow_callback option \<Rightarrow> string list \<Rightarrow> workflow \<Rightarrow> task list \<times> workflow" where
  "start_all callback [] st = ([], st)"
| "start_all callback (nodeId # rest) st =
     (case executeNode_call callback nodeId [] st of
        (t, st') \<Rightarrow> (case start_all callback rest st' of (ts, st'') \<Rightarrow> (t # ts, st'')))"

fun first_error :: "task list \<Rightarrow> error option" where
  "first_error [] = None"
| "first_error (t # ts) = (case task_error t of Some e \<Rightarrow> Some e | None \<Rightarrow> first_error ts)"

fun step :: "workflow_callback option \<Rightarrow> event \<Rightarrow> task list \<times> workflow \<times> error option \<Rightarrow> task list \<times> workflow \<times> error option" where
  "step callback Cancel (ts, st, rej) = (ts, st\<lparr>wf_abort := True\<rparr>, rej)"
| "step callback (Resume i) (ts, st, rej) =
     (if i < length ts \<and> \<not> task_settled (ts ! i)
      then (case executeNode_resume callback (ts ! i) st of
              (t', st') \<Rightarrow>
                (ts[i := t'], st', (case rej of None \<Rightarrow> task_error t' | Some e \<Rightarrow> Some e)))
      else (ts, st, rej))"

fun run_events :: "workflow_callback option \<Rightarrow> event list \<Rightarrow> task list \<times> workflow \<times> error option \<Rightarrow> task list \<times> workflow \<times> error option" where
  "run_events callback [] s = s"
| "run_events callback (ev # evs) s = run_events callback evs (step callback ev s)"

text \<open>A workflow-level hook (\<open>beforeWorkflow\<close>, \<open>afterWorkflow\<close>), when present.\<close>

definition run_workflow_hook :: "(exec_context \<Rightarrow> exec_context \<times> thrown option) option \<Rightarrow> workflow \<Rightarrow> thrown option \<times> workflow" where
  "run_workflow_hook hook st =
     (case hook of
        None \<Rightarrow> (None, st)
      | Some h \<Rightarrow> (case h (new_context st) of (c', r) \<Rightarrow> (r, commit c' st)))"

definition terminalNodes :: "workflow_node list \<Rightarrow> workflow_node list" where
  "terminalNodes nodes =
     filter (\<lambda>node. \<not> list_ex (\<lambda>n. node_id node \<in> set (dependencies n)) nodes) nodes"

text \<open>
  \<open>execute(callback)\<close> under a given order of resumptions.  The result is \<open>None\<close> while
  the promise of \<open>execute\<close> is still pending after the events, \<open>Some (Inl e)\<close> when it
  has rejected with \<open>e\<close>, \<open>Some (Inr outputs)\<close> when it has resolved.  The second component
  is the workflow as the events leave it.
\<close>

definition execute_wf :: "workflow_callback option \<Rightarrow> event list \<Rightarrow> workflow \<Rightarrow> (error + node_output list) option \<times> workflow" where
  "execute_wf callback events w =
     (case validateDAG (wf_nodes w) of
        None \<Rightarrow> (None, w)
      | Some (Inl e) \<Rightarrow> (Some (Inl e), w)
      | Some (Inr False) \<Rightarrow> (Some (Inl InvalidWorkflow), w)
      | Some (Inr True) \<Rightarrow>
          (case run_workflow_hook (Option.bind callback beforeWorkflow) (w\<lparr>wf_abort := False\<rparr>) of
             (Some err, w1) \<Rightarrow> (Some (Inl (Propagated err)), w1)
           | (None, w1) \<Rightarrow>
               (case start_all callback (map node_id (terminalNodes (wf_nodes w1)))
                       (w1\<lparr>executed := {}, executing := {}\<rparr>) of
                  (ts, w2) \<Rightarrow>
                    (case run_events callback events (ts, w2, first_error ts) of
                       (ts', w3, Some e) \<Rightarrow> (Some (Inl e), w3)
                     | (ts', w3, None) \<Rightarrow>
                         (if list_all task_settled ts'
                          then (case run_workflow_hook (Option.bind callback afterWorkflow) w3 of
                                  (Some err, w4) \<Rightarrow> (Some (Inl (Propagated err)), w4)
                                | (None, w4) \<Rightarrow>
                                    (Some (Inr (map output_obj (terminalNodes (wf_nodes w4)))), w4))
                          else (None, w3))))))"

text \<open>A workflow object as the constructor builds it around a node list.\<close>

definition new_workflow :: "workflow_node list \<Rightarrow> workflow" where
  "new_workflow nodes =
     \<lparr> wf_nodes = nodes, wf_abort = False, wf_variables = [],
       executed = {}, executing = {}, invoked = [] \<rparr>"


section \<open>Action: conversation messages\<close>

text \<open>
  \<open>Message\<close>: a role and a content that is a string or an array of items.  A
  \<open>tool_result\<close> item carries a content that is a string or an array of blocks
  (\<open>{ type: 'image', source }\<close>, \<open>{ type: 'text', text }\<close>) and the optional flag
  \<open>is_error\<close> (absent: \<open>False\<close>).  The text of a block is a runtime value, since
  \<open>JSON.stringify\<close> may yield \<open>undefined\<close>.
\<close>

datatype block = TextBlock json | ImageBlock json

datatype tool_result_content = ContentString string | ContentArray "block list"

datatype content_item =
    TextItem string
  | ImageItem json
  | ToolUseItem string string json
  | ToolResultItem string tool_result_content bool

datatype message_content = TextContent string | ArrayContent "content_item list"

datatype role = System | User | Assistant

record message =
  msg_role :: role
  msg_content :: message_content

fun is_image :: "block \<Rightarrow> bool" where
  "is_image (ImageBlock source) = True"
| "is_image (TextBlock t) = False"

text \<open>
  The function mapped over the items of an older user message by
  \<open>handleHistoryImageMessages\<close>: in a \<open>tool_result\<close> whose content is a non-empty array,
  the image blocks are filtered out, and an array left empty becomes the single text block
  \<open>ok\<close>.
\<close>

fun strip_item :: "content_item \<Rightarrow> content_item" where
  "strip_item (ToolResultItem tid (ContentArray bs) err) =
     (if length bs > 0
      then (let bs' = filter (\<lambda>c. \<not> is_image c) bs
            in ToolResultItem tid (ContentArray (if length bs' = 0 then [TextBlock (JStr ''ok'')] else bs')) err)
      else ToolResultItem tid (ContentArray bs) err)"
| "strip_item item = item"

definition strip_message :: "message \<Rightarrow> message" where
  "strip_message m =
     (case msg_content m of
        ArrayContent items \<Rightarrow> m\<lparr>msg_content := ArrayContent (map strip_item items)\<rparr>
      | TextContent t \<Rightarrow> m)"

text \<open>
  The loop \<open>for (let i = messages.length - 1; i >= 0; i--)\<close> with its flag
  \<open>foundFirstUser\<close>, as a recursion over the messages from the last to the first.
\<close>

fun handle_from_last :: "bool \<Rightarrow> message list \<Rightarrow> message list" where
  "handle_from_last foundFirstUser [] = []"
| "handle_from_last foundFirstUser (m # earlier) =
     (if msg_role m = User
      then (if \<not> foundFirstUser then m # handle_from_last True earlier
            else strip_message m # handle_from_last True earlier)
      else m # handle_from_last foundFirstUser earlier)"

definition handleHistoryImageMessages :: "message list \<Rightarrow> message list" where
  "handleHistoryImageMessages messages = rev (handle_from_last False (rev messages))"

text \<open>\<open>countImages\<close>: the image blocks inside \<open>tool_result\<close> items with an array content.\<close>

fun item_images :: "content_item \<Rightarrow> nat" where
  "item_images (ToolResultItem tid (ContentArray bs) err) = length (filter is_image bs)"
| "item_images item = 0"

definition message_images :: "message \<Rightarrow> nat" where
  "message_images m =
     (case msg_content m of
        ArrayContent items \<Rightarrow> sum_list (map item_images items)
      | TextContent t \<Rightarrow> 0)"

definition countImages :: "message list \<Rightarrow> nat" where
  "countImages messages = sum_list (map message_images messages)"

text \<open>
  The specification's description of the result: every user message before the most
  recent one is downgraded, everything else is kept.
\<close>

definition downgrade_older :: "message \<Rightarrow> message" where
  "downgrade_older m = (if msg_role m = User then strip_message m else m)"

text \<open>
  All image content of a message: the image blocks of its tool results and its top-level
  image items.  \<open>execute\<close> builds messages without top-level image items and puts tool
  results in user messages only (\<open>tool_results_in_user_turns\<close>).
\<close>

fun item_top_images :: "content_item \<Rightarrow> nat" where
  "item_top_images (ImageItem source) = 1"
| "item_top_images item = 0"

definition message_all_images :: "message \<Rightarrow> nat" where
  "message_all_images m =
     (case msg_content m of
        ArrayContent items \<Rightarrow> sum_list (map item_top_images items) + sum_list (map item_images items)
      | TextContent t \<Rightarrow> 0)"

definition tool_results_in_user_turns :: "message list \<Rightarrow> bool" where
  "tool_results_in_user_turns ms =
     list_all (\<lambda>m. message_all_images m = message_images m
                   \<and> (if msg_role m = User then True else message_images m = 0)) ms"

text \<open>
  A conversation as \<open>execute\<close> builds it, with screenshots returned by three tool calls.
\<close>

definition screenshot_result :: "string \<Rightarrow> block list \<Rightarrow> message" where
  "screenshot_result tid bs =
     \<lparr> msg_role = User, msg_content = ArrayContent [ToolResultItem tid (ContentArray bs) False] \<rparr>"

definition tool_use_message :: "string \<Rightarrow> message" where
  "tool_use_message tid =
     \<lparr> msg_role = Assistant, msg_content = ArrayContent [ToolUseItem tid ''screenshot'' (JObj [])] \<rparr>"

definition screenshot_history :: "message list" where
  "screenshot_history =
     [\<lparr> msg_role = System, msg_content = TextContent ''system'' \<rparr>,
      \<lparr> msg_role = User, msg_content = TextContent ''task'' \<rparr>,
      tool_use_message ''t1'',
      screenshot_result ''t1'' [ImageBlock (JStr ''png1''), TextBlock (JStr ''first'')],
      tool_use_message ''t2'',
      screenshot_result ''t2'' [ImageBlock (JStr ''png2'')],
      tool_use_message ''t3'']"


section \<open>Action: the round loop\<close>

text \<open>
  Collaborators of the action outside the repository: \<open>JSON.stringify\<close> (\<open>None\<close> for
  \<open>undefined\<close>), \<open>JSON.parse\<close> applied to a runtime value (\<open>None\<close>: it throws), the string
  conversion of \<open>+\<close>, and the two prompt texts (\<open>formatSystemPrompt\<close>,
  \<open>formatUserPrompt\<close>), whose wording no property below depends on.
\<close>

record externals =
  JSON_stringify :: "json \<Rightarrow> string option"
  JSON_parse :: "json \<Rightarrow> json option"
  to_String :: "json \<Rightarrow> string"
  formatSystemPrompt :: string
  formatUserPrompt :: "exec_context \<Rightarrow> node_output list \<Rightarrow> string"

text \<open>JavaScript truthiness, and reading a property of a value that is not nullish.\<close>

fun truthy :: "json \<Rightarrow> bool" where
  "truthy JUndefined = False"
| "truthy JNull = False"
| "truthy (JBool b) = b"
| "truthy (JNum n) = (n \<noteq> 0)"
| "truthy (JStr s) = (s \<noteq> [])"
| "truthy (JArr xs) = True"
| "truthy (JObj kvs) = True"

fun get_prop :: "json \<Rightarrow> string \<Rightarrow> json" where
  "get_prop (JObj kvs) k = (case map_of kvs k of None \<Rightarrow> JUndefined | Some v \<Rightarrow> v)"
| "get_prop v k = JUndefined"

definition stringify :: "externals \<Rightarrow> json \<Rightarrow> json" where
  "stringify ext v = (case JSON_stringify ext v of None \<Rightarrow> JUndefined | Some s \<Rightarrow> JStr s)"

text \<open>
  The fixed texts of the source, as UTF-8 bytes: the prefix of an error result
  (\<open>error_prefix\<close>, "error:" in Chinese with a full-width colon), the text for a thrown
  value that is not an \<open>Error\<close> (\<open>unknown_error_text\<close>), the content of a skipped tool's
  result (\<open>skipped_text\<close>), and the two user messages that ask for \<open>return_output\<close>.
\<close>

definition error_prefix :: string where
  "error_prefix =
     [CHR 0xE9, CHR 0x94, CHR 0x99, CHR 0xE8, CHR 0xAF, CHR 0xAF, CHR 0xEF, CHR 0xBC, CHR 0x9A]"

definition unknown_error_text :: string where
  "unknown_error_text =
     [CHR 0xE5, CHR 0x8F, CHR 0x91, CHR 0xE7, CHR 0x94, CHR 0x9F, CHR 0xE6, CHR 0x9C,
      CHR 0xAA, CHR 0xE7, CHR 0x9F, CHR 0xA5, CHR 0xE9, CHR 0x94, CHR 0x99, CHR 0xE8,
      CHR 0xAF, CHR 0xAF]"

definition skipped_text :: string where
  "skipped_text =
     [CHR 0xE8, CHR 0xB7, CHR 0xB3, CHR 0xE8, CHR 0xBF, CHR 0x87]"

definition request_return_text :: string where
  "request_return_text =
     [CHR 0xE8, CHR 0xAF, CHR 0xB7, CHR 0xE4, CHR 0xBD, CHR 0xBF, CHR 0xE7, CHR 0x94,
      CHR 0xA8, CHR 0x20, CHR 0x72, CHR 0x65, CHR 0x74, CHR 0x75, CHR 0x72, CHR 0x6E,
      CHR 0x5F, CHR 0x6F, CHR 0x75, CHR 0x74, CHR 0x70, CHR 0x75, CHR 0x74, CHR 0x20,
      CHR 0xE5, CHR 0xB7, CHR 0xA5, CHR 0xE5, CHR 0x85, CHR 0xB7, CHR 0xE5, CHR 0xA4,
      CHR 0x84, CHR 0xE7, CHR 0x90, CHR 0x86, CHR 0xE4, CHR 0xB8, CHR 0x8A, CHR 0xE8,
      CHR 0xBF, CHR 0xB0, CHR 0xE4, CHR 0xBF, CHR 0xA1, CHR 0xE6, CHR 0x81, CHR 0xAF,
      CHR 0xE5, CHR 0xB9, CHR 0xB6, CHR 0xE8, CHR 0xBF, CHR 0x94, CHR 0xE5, CHR 0x9B,
      CHR 0x9E, CHR 0xE6, CHR 0x9C, CHR 0x80, CHR 0xE7, CHR 0xBB, CHR 0x88, CHR 0xE7,
      CHR 0xBB, CHR 0x93, CHR 0xE6, CHR 0x9E, CHR 0x9C, CHR 0xE3, CHR 0x80, CHR 0x82]"

definition max_rounds_text :: string where
  "max_rounds_text =
     [CHR 0xE8, CHR 0xBE, CHR 0xBE, CHR 0xE5, CHR 0x88, CHR 0xB0, CHR 0xE6, CHR 0x9C,
      CHR 0x80, CHR 0xE5, CHR 0xA4, CHR 0xA7, CHR 0xE6, CHR 0xAD, CHR 0xA5, CHR 0xE6,
      CHR 0x95, CHR 0xB0, CHR 0xE3, CHR 0x80, CHR 0x82, CHR 0xE8, CHR 0xAF, CHR 0xB7,
      CHR 0xE4, CHR 0xBD, CHR 0xBF, CHR 0xE7, CHR 0x94, CHR 0xA8, CHR 0x20, CHR 0x72,
      CHR 0x65, CHR 0x74, CHR 0x75, CHR 0x72, CHR 0x6E, CHR 0x5F, CHR 0x6F, CHR 0x75,
      CHR 0x74, CHR 0x70, CHR 0x75, CHR 0x74, CHR 0x20, CHR 0xE5, CHR 0xB7, CHR 0xA5,
      CHR 0xE5, CHR 0x85, CHR 0xB7, CHR 0xE5, CHR 0xB0, CHR 0xBD, CHR 0xE5, CHR 0x8F,
      CHR 0xAF, CHR 0xE8, CHR 0x83, CHR 0xBD, CHR 0xE8, CHR 0xBF, CHR 0x94, CHR 0xE5,
      CHR 0x9B, CHR 0x9E, CHR 0xE6, CHR 0x9C, CHR 0x80, CHR 0xE4, CHR 0xBD, CHR 0xB3,
      CHR 0xE7, CHR 0xBB, CHR 0x93, CHR 0xE6, CHR 0x9E, CHR 0x9C, CHR 0xE3, CHR 0x80, CHR 0x82]"

text \<open>
  \<open>WriteContextTool\<close> and \<open>createReturnTool\<close>.  Destructuring \<open>params\<close> throws a
  \<open>TypeError\<close> when \<open>params\<close> is nullish (its message, which is the runtime's, is
  abbreviated); \<open>return_output\<close> stores its parameters under the sentinel key
  \<open>__action_<name>_output\<close>.  The descriptions and schemas are left empty.
\<close>

definition WriteContextTool :: "externals \<Rightarrow> tool" where
  "WriteContextTool ext =
     \<lparr> name = ''write_context'', description = [], input_schema = JObj [],
       execute = (\<lambda>c params.
         if params = JUndefined \<or> params = JNull
         then (c, Inl (ErrorObj ''TypeError''))
         else
           (let key = get_prop params ''key''; val = get_prop params ''value''
            in (c\<lparr>variables :=
                    Map_set key (case JSON_parse ext val of Some parsedValue \<Rightarrow> parsedValue | None \<Rightarrow> val)
                      (variables c)\<rparr>,
                Inr (JObj [(''success'', JBool True), (''key'', key), (''value'', val)])))) \<rparr>"

definition output_key :: "string \<Rightarrow> json" where
  "output_key actionName = JStr (''__action_'' @ actionName @ ''_output'')"

definition createReturnTool :: "string \<Rightarrow> tool" where
  "createReturnTool actionName =
     \<lparr> name = ''return_output'', description = [], input_schema = JObj [],
       execute = (\<lambda>c params.
         (c\<lparr>variables := Map_set (output_key actionName) params (variables c)\<rparr>,
          Inr (JObj [(''success'', JBool True)]))) \<rparr>"

text \<open>
  The action object: its name, \<open>this.tools\<close>, the provider, \<open>maxRounds\<close> and the map
  \<open>toolResults\<close>, which lives as long as the object.  The constructor appends
  \<open>write_context\<close> to the tools and takes \<open>config.maxRounds\<close> only when it is truthy.
\<close>

record tool_call =
  call_id :: string
  call_name :: string
  call_input :: json

record llm_response =
  textContent :: "string option"
  toolCalls :: "tool_call list"

text \<open>
  What \<open>generateStream\<close> does in one call: the chunks passed to \<open>onContent\<close>, at most one
  \<open>onToolUse\<close> event, the response passed to \<open>onComplete\<close> (if it is called), whether the
  abort signal fires while the stream runs (the listener then sets \<open>__abort\<close>), and
  whether the call rejects.  A provider maps the number of earlier calls, the messages
  and the names of the tools offered to such a run.
\<close>

record stream_run =
  contents :: "string list"
  tool_use :: "tool_call option"
  completed :: "llm_response option"
  signal_fires :: bool
  failure :: "thrown option"

type_synonym llm_provider = "nat \<Rightarrow> message list \<Rightarrow> string list \<Rightarrow> stream_run"

record action_impl =
  action_name :: string
  action_tools :: "tool list"
  llmProvider :: "llm_provider option"
  maxRounds :: int
  toolResults :: "(string, json) jsmap"

definition ActionImpl :: "externals \<Rightarrow> string \<Rightarrow> tool list \<Rightarrow> llm_provider option \<Rightarrow> int option option \<Rightarrow> action_impl" where
  "ActionImpl ext actionName tools provider config =
     \<lparr> action_name = actionName,
       action_tools = tools @ [WriteContextTool ext],
       llmProvider = provider,
       maxRounds = (case config of
                      Some (Some n) \<Rightarrow> if n \<noteq> 0 then n else 10
                    | Some None \<Rightarrow> 10
                    | None \<Rightarrow> 10),
       toolResults = [] \<rparr>"

text \<open>The hooks \<open>beforeToolUse\<close> and \<open>afterToolUse\<close> of \<open>context.callback\<close>.\<close>

record tool_hooks =
  beforeToolUse :: "(tool \<Rightarrow> exec_context \<Rightarrow> json \<Rightarrow> exec_context \<times> (thrown + json)) option"
  afterToolUse :: "(tool \<Rightarrow> exec_context \<Rightarrow> json \<Rightarrow> exec_context \<times> (thrown + json)) option"

definition tool_result_message :: "string \<Rightarrow> tool_result_content \<Rightarrow> bool \<Rightarrow> message" where
  "tool_result_message tid c err =
     \<lparr> msg_role = User, msg_content = ArrayContent [ToolResultItem tid c err] \<rparr>"

definition error_text :: "thrown \<Rightarrow> string" where
  "error_text err = (case err of ErrorObj m \<Rightarrow> m | NonError v \<Rightarrow> unknown_error_text)"

text \<open>The \<open>catch\<close> branch of the tool execution: an error result, flagged \<open>is_error\<close>.\<close>

definition error_result :: "tool_call \<Rightarrow> thrown \<Rightarrow> message" where
  "error_result call err =
     tool_result_message (call_id call)
       (ContentArray [TextBlock (JStr (error_prefix @ error_text err))]) True"

text \<open>
  A hook that may replace a value: \<open>let m = await hook(tool, context, v); if (m) v = m\<close>.
\<close>

definition apply_hook :: "(tool \<Rightarrow> exec_context \<Rightarrow> json \<Rightarrow> exec_context \<times> (thrown + json)) option \<Rightarrow> tool \<Rightarrow> exec_context \<Rightarrow> json \<Rightarrow> exec_context \<times> (thrown + json)" where
  "apply_hook hook t c v =
     (case hook of
        None \<Rightarrow> (c, Inr v)
      | Some h \<Rightarrow>
          (case h t c v of
             (c', Inl err) \<Rightarrow> (c', Inl err)
           | (c', Inr modified) \<Rightarrow> (c', Inr (if truthy modified then modified else v))))"

text \<open>The tool result message and the text recorded in \<open>toolResults\<close> for a result.\<close>

definition result_has_image :: "json \<Rightarrow> bool" where
  "result_has_image result = (truthy result \<and> truthy (get_prop result ''image''))"

definition resultContent :: "externals \<Rightarrow> json \<Rightarrow> tool_result_content" where
  "resultContent ext result =
     (if result_has_image result
      then (if truthy (get_prop result ''text'')
            then ContentArray [ImageBlock (get_prop result ''image''), TextBlock (get_prop result ''text'')]
            else ContentArray [ImageBlock (get_prop result ''image'')])
      else ContentArray [TextBlock (stringify ext result)])"

definition resultContentText :: "externals \<Rightarrow> json \<Rightarrow> json" where
  "resultContentText ext result =
     (if result_has_image result
      then (if truthy (get_prop result ''text'')
            then JStr (to_String ext (get_prop result ''text'') @ '' [Image]'')
            else JStr ''[Image]'')
      else stringify ext result)"

text \<open>
  The detached task started by \<open>onToolUse\<close> (the body of \<open>toolExecutionPromise\<close>), from
  \<open>context.__skip = false\<close> to the end of its \<open>catch\<close>.  It returns the context, the map
  \<open>toolResults\<close> and the tool result message; it has no throwing branch.
\<close>

definition run_tool :: "externals \<Rightarrow> tool_hooks option \<Rightarrow> tool \<Rightarrow> tool_call \<Rightarrow> (string, json) jsmap \<Rightarrow> exec_context \<Rightarrow> exec_context \<times> (string, json) jsmap \<times> message" where
  "run_tool ext hooks t call results c =
     (case apply_hook (Option.bind hooks beforeToolUse) t (c\<lparr>skip_flag := False\<rparr>) (call_input call) of
        (c2, Inl err) \<Rightarrow> (c2, results, error_result call err)
      | (c2, Inr input) \<Rightarrow>
          if skip_flag c2 \<or> abort_flag c2 \<or> signal_aborted c2
          then (c2, results, tool_result_message (call_id call) (ContentString skipped_text) False)
          else
            (case execute t c2 input of
               (c3, Inl err) \<Rightarrow> (c3, results, error_result call err)
             | (c3, Inr result0) \<Rightarrow>
                 (case apply_hook (Option.bind hooks afterToolUse) t c3 result0 of
                    (c4, Inl err) \<Rightarrow> (c4, results, error_result call err)
                  | (c4, Inr result) \<Rightarrow>
                      (c4,
                       (if name t \<noteq> ''return_output''
                        then Map_set (call_id call) (resultContentText ext result) results
                        else results),
                       tool_result_message (call_id call) (resultContent ext result) False))))"

text \<open>
  The state threaded through the rounds of one \<open>execute\<close>: the \<open>messages\<close> array, the
  context, \<open>toolResults\<close>, and two counters used in statements only: the number of calls
  of \<open>generateStream\<close> and the rounds performed, by kind.
\<close>

datatype round_kind = Regular | RequestReturn | MaxRoundsReturn

record loop_state =
  ls_messages :: "message list"
  ls_context :: exec_context
  ls_toolResults :: "(string, json) jsmap"
  ls_calls :: nat
  ls_rounds :: "round_kind list"

record round_result =
  response :: "llm_response option"
  hasToolUse :: bool
  roundMessages :: "message list"

text \<open>\<open>content.trim()\<close> is empty (white space of the ASCII range).\<close>

definition is_blank :: "string \<Rightarrow> bool" where
  "is_blank content = list_all (\<lambda>ch. ch \<in> set [CHR 0x20, CHR 0x09, CHR 0x0A, CHR 0x0B, CHR 0x0C, CHR 0x0D]) content"

text \<open>
  \<open>executeSingleRound\<close>: trim the history (in place), stream the model's reply, run the
  tool of the \<open>onToolUse\<close> event if the tool map has it (otherwise \<open>onToolUse\<close> throws
  into the provider and nothing is recorded), then wait for the stream and for the tool.
  A rejected stream propagates; a set \<open>__abort\<close> raises \<open>Abort\<close>; otherwise the messages
  of the round are the assistant text (if not empty), the tool use and the tool result.
\<close>

definition executeSingleRound :: "externals \<Rightarrow> llm_provider option \<Rightarrow> tool_hooks option \<Rightarrow> round_kind \<Rightarrow> string list \<Rightarrow> (string, tool) jsmap \<Rightarrow> loop_state \<Rightarrow> error + round_result \<times> loop_state" where
  "executeSingleRound ext provider hooks kind offered toolMap st =
     (let messages = handleHistoryImageMessages (ls_messages st)
      in case provider of
           None \<Rightarrow> Inl NoLLMProvider
         | Some generateStream \<Rightarrow>
             (let run = generateStream (ls_calls st) messages offered;
                  assistantTextMessage = concat (filter (\<lambda>content. \<not> is_blank content) (contents run));
                  c1 = (if signal_fires run
                        then (ls_context st)\<lparr>abort_flag := True, signal_aborted := True\<rparr>
                        else ls_context st);
                  ran = (case tool_use run of
                           None \<Rightarrow> (c1, ls_toolResults st, [])
                         | Some call \<Rightarrow>
                             (case Map_get toolMap (call_name call) of
                                None \<Rightarrow> (c1, ls_toolResults st, [])
                              | Some t \<Rightarrow>
                                  (case run_tool ext hooks t call (ls_toolResults st) c1 of
                                     (c2, results, toolResultMessage) \<Rightarrow>
                                       (c2, results,
                                        [\<lparr> msg_role = Assistant,
                                            msg_content = ArrayContent
                                              [ToolUseItem (call_id call) (name t) (call_input call)] \<rparr>,
                                         toolResultMessage]))))
              in case ran of
                   (c2, results, toolMessages) \<Rightarrow>
                     (case failure run of
                        Some err \<Rightarrow> Inl (Propagated err)
                      | None \<Rightarrow>
                          if abort_flag c2 then Inl Abort
                          else Inr (\<lparr> response = completed run,
                                      hasToolUse = (tool_use run \<noteq> None),
                                      roundMessages =
                                        (if assistantTextMessage \<noteq> []
                                         then [\<lparr> msg_role = Assistant,
                                                 msg_content = TextContent assistantTextMessage \<rparr>]
                                         else []) @ toolMessages \<rparr>,
                                    st\<lparr> ls_messages := messages, ls_context := c2,
                                        ls_toolResults := results, ls_calls := Suc (ls_calls st),
                                        ls_rounds := ls_rounds st @ [kind] \<rparr>))))"


text \<open>
  The \<open>while (roundCount < this.maxRounds)\<close> loop of \<open>execute\<close>.  A round without tool
  use but with a response is followed by one round that offers \<open>return_output\<close> only, and
  the loop ends; a response that calls \<open>return_output\<close> ends the loop; the round that
  reaches \<open>maxRounds\<close> is followed by one round that offers \<open>return_output\<close> only.
\<close>

definition user_text :: "string \<Rightarrow> message" where
  "user_text t = \<lparr> msg_role = User, msg_content = TextContent t \<rparr>"

definition push_messages :: "message list \<Rightarrow> loop_state \<Rightarrow> loop_state" where
  "push_messages ms st = st\<lparr>ls_messages := ls_messages st @ ms\<rparr>"

definition calls_return_output :: "llm_response option \<Rightarrow> bool" where
  "calls_return_output r =
     (case r of
        None \<Rightarrow> False
      | Some resp \<Rightarrow> list_ex (\<lambda>call. call_name call = ''return_output'') (toolCalls resp))"

text \<open>The extra round that offers \<open>return_output\<close> only, after a user message \<open>t\<close>.\<close>

definition return_only_round :: "externals \<Rightarrow> llm_provider option \<Rightarrow> tool_hooks option \<Rightarrow> round_kind \<Rightarrow> tool \<Rightarrow> string \<Rightarrow> loop_state \<Rightarrow> error + loop_state" where
  "return_only_round ext provider hooks kind returnTool t st =
     (case executeSingleRound ext provider hooks kind [name returnTool]
             [(name returnTool, returnTool)] (push_messages [user_text t] st) of
        Inl e \<Rightarrow> Inl e
      | Inr (r, st') \<Rightarrow> Inr (push_messages (roundMessages r) st'))"

function round_loop :: "externals \<Rightarrow> llm_provider option \<Rightarrow> tool_hooks option \<Rightarrow> int \<Rightarrow> tool \<Rightarrow> string list \<Rightarrow> (string, tool) jsmap \<Rightarrow> int \<Rightarrow> loop_state \<Rightarrow> error + loop_state" where
  "round_loop ext provider hooks maxR returnTool offered toolMap roundCount st =
     (if roundCount < maxR
      then
        (if signal_aborted (ls_context st) then Inl WorkflowCancelled
         else
           (case executeSingleRound ext provider hooks Regular offered toolMap st of
              Inl e \<Rightarrow> Inl e
            | Inr (r, st1) \<Rightarrow>
                (let st2 = push_messages (roundMessages r) st1
                 in if \<not> hasToolUse r \<and> response r \<noteq> None
                    then return_only_round ext provider hooks RequestReturn returnTool
                           request_return_text st2
                    else if calls_return_output (response r) then Inr st2
                    else if roundCount + 1 = maxR
                    then (case return_only_round ext provider hooks MaxRoundsReturn returnTool
                                 max_rounds_text st2 of
                            Inl e \<Rightarrow> Inl e
                          | Inr st3 \<Rightarrow>
                              round_loop ext provider hooks maxR returnTool offered toolMap
                                (roundCount + 1) st3)
                    else round_loop ext provider hooks maxR returnTool offered toolMap
                           (roundCount + 1) st2)))
      else Inr st)"
  by pat_completeness auto
termination
  by (relation "measure (\<lambda>(ext, provider, hooks, maxR, returnTool, offered, toolMap, roundCount, st).
        nat (maxR - roundCount))") auto

declare round_loop.simps [simp del]

text \<open>
  The end of \<open>execute\<close>: read and delete the sentinel, then choose the output.
  \<open>outputParams.use_tool_result\<close> is read without a guard, so a nullish \<open>outputParams\<close>
  raises a \<open>TypeError\<close>; the other branch reads \<open>outputParams?.value\<close>.
  \<open>Array.from(this.toolResults.values()).pop()\<close> is the value inserted last, or
  \<open>undefined\<close>.  An \<open>undefined\<close> output value yields \<open>{}\<close> (with a warning).
\<close>

definition pop_last :: "json list \<Rightarrow> json" where
  "pop_last vs = (if vs = [] then JUndefined else last vs)"

definition resolve_output :: "string \<Rightarrow> loop_state \<Rightarrow> error + json \<times> loop_state" where
  "resolve_output actionName st =
     (let outputKey = output_key actionName;
          outputParams = (case Map_get (variables (ls_context st)) outputKey of
                            None \<Rightarrow> JUndefined
                          | Some v \<Rightarrow> v);
          st' = st\<lparr>ls_context :=
                    (ls_context st)\<lparr>variables := Map_delete outputKey (variables (ls_context st))\<rparr>\<rparr>
      in if outputParams = JUndefined \<or> outputParams = JNull
         then Inl (TypeError ''use_tool_result'')
         else
           (let outputValue =
                  (if truthy (get_prop outputParams ''use_tool_result'')
                   then pop_last (Map_values (ls_toolResults st))
                   else get_prop outputParams ''value'')
            in if outputValue = JUndefined then Inr (JObj [], st') else Inr (outputValue, st')))"

text \<open>
  \<open>ActionImpl.execute(input, output, context)\<close>: the tool map (the action's tools, then
  the tools of the context, then \<open>return_output\<close>), the two initial messages, the loop
  from round 0 (\<open>run_rounds\<close>), and the output.  \<open>contextTools\<close> are the values of
  \<open>context.tools\<close>.  The result carries the final loop state (context, \<open>toolResults\<close>,
  counters).
\<close>

definition build_toolMap :: "tool list \<Rightarrow> tool list \<Rightarrow> tool \<Rightarrow> (string, tool) jsmap" where
  "build_toolMap actionTools contextTools returnTool =
     fold (\<lambda>t m. Map_set (name t) t m) (actionTools @ contextTools @ [returnTool]) []"

definition action_toolMap :: "action_impl \<Rightarrow> tool list \<Rightarrow> (string, tool) jsmap" where
  "action_toolMap a contextTools =
     build_toolMap (action_tools a) contextTools (createReturnTool (action_name a))"

definition initial_state :: "externals \<Rightarrow> action_impl \<Rightarrow> node_output list \<Rightarrow> exec_context \<Rightarrow> loop_state" where
  "initial_state ext a input c =
     \<lparr> ls_messages =
         [\<lparr> msg_role = System, msg_content = TextContent (formatSystemPrompt ext) \<rparr>,
          user_text (formatUserPrompt ext c input)],
       ls_context = c, ls_toolResults = toolResults a, ls_calls = 0, ls_rounds = [] \<rparr>"

definition run_rounds :: "externals \<Rightarrow> action_impl \<Rightarrow> tool_hooks option \<Rightarrow> tool list \<Rightarrow> node_output list \<Rightarrow> exec_context \<Rightarrow> error + loop_state" where
  "run_rounds ext a hooks contextTools input c =
     round_loop ext (llmProvider a) hooks (maxRounds a) (createReturnTool (action_name a))
       (map name (Map_values (action_toolMap a contextTools))) (action_toolMap a contextTools) 0
       (initial_state ext a input c)"

definition execute_action :: "externals \<Rightarrow> action_impl \<Rightarrow> tool_hooks option \<Rightarrow> tool list \<Rightarrow> node_output list \<Rightarrow> exec_context \<Rightarrow> error + json \<times> loop_state" where
  "execute_action ext a hooks contextTools input c =
     (case run_rounds ext a hooks contextTools input c of
        Inl e \<Rightarrow> Inl e
      | Inr st \<Rightarrow> resolve_output (action_name a) st)"

text \<open>
  Scripted providers like the mock provider of the tests: one that reports an error and
  returns (\<open>silent_provider\<close>), and one that answers the \<open>n\<close>-th call with the \<open>n\<close>-th tool
  call of a list, echoed in the response (\<open>scripted_provider\<close>).  \<open>test_externals\<close> fixes
  the outside functions for the examples.
\<close>

definition silent_provider :: llm_provider where
  "silent_provider n messages offered =
     \<lparr> contents = [], tool_use = None, completed = None, signal_fires = False, failure = None \<rparr>"


definition test_externals :: externals where
  "test_externals =
     \<lparr> JSON_stringify = (\<lambda>v. case v of JUndefined \<Rightarrow> None | JStr t \<Rightarrow> Some t | _ \<Rightarrow> Some ''json''),
       JSON_parse = (\<lambda>v. None),
       to_String = (\<lambda>v. case v of JStr t \<Rightarrow> t | _ \<Rightarrow> ''value''),
       formatSystemPrompt = ''system'',
       formatUserPrompt = (\<lambda>c input. ''user'') \<rparr>"

definition empty_context :: exec_context where
  "empty_context =
     \<lparr> variables = [], skip_flag = False, abort_flag = False, signal_aborted = False,
       workflow_abort = False \<rparr>"

text \<open>A mock tool like that of the action tests: it returns a value, or throws when \<open>shouldFail\<close>.\<close>

definition ActionMockTool :: "string \<Rightarrow> bool \<Rightarrow> tool" where
  "ActionMockTool n shouldFail =
     \<lparr> name = n, description = [], input_schema = JObj [],
       execute = (\<lambda>c params.
         if shouldFail then (c, Inl (ErrorObj ''tool failed''))
         else (c, Inr (JStr ''tool result''))) \<rparr>"

text \<open>
  The shape of the rounds of one run of the loop entered at \<open>roundCount\<close>: some regular
  rounds, then at most one round that offers \<open>return_output\<close> only; the regular rounds are
  at most \<open>maxR - roundCount\<close>, and exactly as many when the last round is the one forced
  by the round limit.
\<close>

definition loop_trace :: "int \<Rightarrow> int \<Rightarrow> round_kind list \<Rightarrow> bool" where
  "loop_trace maxR roundCount ks =
     (\<exists>n fin. ks = replicate n Regular @ fin
        \<and> (fin = [] \<or> fin = [RequestReturn] \<or> fin = [MaxRoundsReturn])
        \<and> (if roundCount < maxR then int n \<le> maxR - roundCount else n = 0 \<and> fin = [])
        \<and> (fin = [MaxRoundsReturn] \<longrightarrow> int n = maxR - roundCount))"

text \<open>
  More scripted examples: a provider that calls a tool in each of its first ten replies
  and \<open>return_output\<close> afterwards; a provider that calls a tool and then \<open>return_output\<close>
  with given parameters; a tool that returns no value; and an action whose only tool throws.
\<close>

definition busy_provider :: llm_provider where
  "busy_provider n messages offered =
     (if n < 10
      then \<lparr> contents = [], tool_use = Some \<lparr> call_id = ''c'', call_name = ''test_tool'', call_input = JObj [] \<rparr>,
             completed = Some \<lparr> textContent = None,
               toolCalls = [\<lparr> call_id = ''c'', call_name = ''test_tool'', call_input = JObj [] \<rparr>] \<rparr>,
             signal_fires = False, failure = None \<rparr>
      else \<lparr> contents = [], tool_use = Some \<lparr> call_id = ''r'', call_name = ''return_output'',
               call_input = JObj [(''use_tool_result'', JBool True)] \<rparr>,
             completed = Some \<lparr> textContent = None,
               toolCalls = [\<lparr> call_id = ''r'', call_name = ''return_output'',
                 call_input = JObj [(''use_tool_result'', JBool True)] \<rparr>] \<rparr>,
             signal_fires = False, failure = None \<rparr>)"




section \<open>Workflow: notions for statements about runs, and examples\<close>

text \<open>
  Notions for the statements about runs.  The nodes a task can still act on: those of its
  suspended calls.  A task whose innermost call has been rejected only passes the rejection
  down its stack, so it acts on none.
\<close>

fun live_nodes :: "task \<Rightarrow> string set" where
  "live_nodes (stack, Settled (Some e)) = {}"
| "live_nodes (stack, Settled None) = fst ` set stack"
| "live_nodes (stack, Suspended n c p) = insert n (fst ` set stack)"

text \<open>
  A node is stuck when it is in \<open>executing\<close>, not in \<open>executed\<close>, its action has not
  been invoked, and no task can act on it.
\<close>

definition stuck_in :: "string \<Rightarrow> workflow \<Rightarrow> bool" where
  "stuck_in X st = (X \<in> executing st \<and> X \<notin> executed st \<and> X \<notin> fst ` set (invoked st))"

definition stuck :: "string \<Rightarrow> task list \<times> workflow \<times> error option \<Rightarrow> bool" where
  "stuck X s = (case s of (ts, st, rej) \<Rightarrow> stuck_in X st \<and> list_all (\<lambda>t. X \<notin> live_nodes t) ts)"

text \<open>A task whose innermost call has been rejected.\<close>

fun dead :: "task \<Rightarrow> bool" where
  "dead (stack, Settled (Some e)) = True"
| "dead t = False"

text \<open>
  Some task has a rejected innermost call, and the rejection of a settled task has been
  recorded as the rejection of \<open>Promise.all\<close>.
\<close>

definition rejection_recorded :: "task list \<times> workflow \<times> error option \<Rightarrow> bool" where
  "rejection_recorded s =
     (case s of (ts, st, rej) \<Rightarrow> list_ex dead ts \<and> (list_ex (\<lambda>t. task_error t \<noteq> None) ts \<longrightarrow> rej \<noteq> None))"

text \<open>
  Example workflows, built from the mock node of the tests: two terminal nodes that share
  a dependency; a node \<open>N\<close> that is a dependency of two nodes of one branch; and a node
  \<open>N\<close> shared by two terminal branches.  \<open>skip_callback N\<close> is a callback whose
  \<open>beforeSubtask\<close> hook calls \<open>context.next()\<close> for the node \<open>N\<close> and does nothing else.
\<close>

definition shared_dependency_workflow :: "workflow_node list" where
  "shared_dependency_workflow =
     [createMockNode ''A'' [], createMockNode ''T1'' [''A''], createMockNode ''T2'' [''A'']]"

definition skip_callback :: "string \<Rightarrow> workflow_callback" where
  "skip_callback N =
     \<lparr> beforeWorkflow = None,
       beforeSubtask = Some (\<lambda>node c. (if node_id node = N then c\<lparr>skip_flag := True\<rparr> else c, None)),
       afterSubtask = None, afterWorkflow = None \<rparr>"

definition skip_example :: "workflow_node list" where
  "skip_example = [createMockNode ''N'' [], createMockNode ''B'' [''N''], createMockNode ''T'' [''N'', ''B'']]"

definition skip_example_state :: workflow where
  "skip_example_state =
     \<lparr> wf_nodes = skip_example, wf_abort = False, wf_variables = [],
       executed = {}, executing = {''N'', ''T''}, invoked = [] \<rparr>"

definition cancel_example :: "workflow_node list" where
  "cancel_example =
     [createMockNode ''N'' [], createMockNode ''M'' [],
      createMockNode ''T1'' [''N''], createMockNode ''T2'' [''M'', ''N'']]"

text \<open>
  Notions for the statement about the runs that go through.  \<open>skel\<close> is what a run
  never changes of a node: its id, its dependencies and its action.
\<close>

definition skel :: "workflow_node \<Rightarrow> string \<times> string list \<times> (node_output list \<Rightarrow> node_output \<Rightarrow> exec_context \<Rightarrow> exec_context \<times> (thrown + json))" where
  "skel n = (node_id n, dependencies n, action n)"




text \<open>
  The log of invocations is in order: every entry \<open>(n, items)\<close> names a node of the
  workflow, the actions of the dependencies of that node were all invoked before, and
  \<open>items\<close>, the \<open>input.items\<close> the action was given, are the output objects of these
  dependencies in the order of their declaration.
\<close>

definition log_ok :: "workflow \<Rightarrow> bool" where
  "log_ok st =
     (\<forall>pre n items post. invoked st = pre @ (n, items) # post \<longrightarrow>
        (\<exists>node. getNode (wf_nodes st) n = Inr node
           \<and> set (dependencies node) \<subseteq> fst ` set pre
           \<and> collect_outputs (wf_nodes st) (dependencies node) = Inr items))"

text \<open>
  The invariant of a run in which nothing has been rejected: the nodes keep their
  skeleton, the workflow is not aborted, the action of a node has been invoked at most
  once, and exactly for the nodes in \<open>executed\<close>; the log is in order; no node is both in
  \<open>executing\<close> and in \<open>executed\<close>; and the dependencies of an executed node are executed.
\<close>

definition run_inv :: "workflow_node list \<Rightarrow> workflow \<Rightarrow> bool" where
  "run_inv ns st =
     (map skel (wf_nodes st) = map skel ns \<and> \<not> wf_abort st
      \<and> distinct (map fst (invoked st)) \<and> fst ` set (invoked st) = executed st
      \<and> log_ok st \<and> executing st \<inter> executed st = {}
      \<and> (\<forall>a b. a \<in> executed st \<and> (a, b) \<in> dep_edges ns \<longrightarrow> b \<in> executed st))"






section \<open>Theorems: tool registry\<close>

lemma Map_get_set_same: "Map_get (Map_set k v m) k = Some v"
  by (simp add: Map_get_def Map_set_def update_conv')

lemma Map_keys_set_present: "Map_has m k \<Longrightarrow> Map_keys (Map_set k v m) = Map_keys m"
  by (simp add: Map_keys_def Map_set_def Map_has_def update_keys)

text \<open>
  C2 (the code differs from the claim).  Registering a tool whose name is already present
  does not fail: \<open>registerTool\<close> has no check, the call returns normally and the
  earlier tool is replaced, in place, by the new one.
\<close>

theorem registerTool_duplicate_overwrites:
  "Map_has tools (name t) \<Longrightarrow>
     (\<exists>tools'. registerTool tools t = Inr tools' \<and> getTool tools' (name t) = Inr t
        \<and> getToolEnum tools' = getToolEnum tools)"
  by (simp add: registerTool_def getTool_def getToolEnum_def Map_get_set_same Map_keys_set_present)

theorem registerTool_duplicate_overwrites_witness:
  "Map_has [(''mock_tool'', MockTool ''mock_tool'' ''first'')]
      (name (MockTool ''mock_tool'' ''second''))
   \<and> (\<exists>tools'. registerTool [(''mock_tool'', MockTool ''mock_tool'' ''first'')]
                   (MockTool ''mock_tool'' ''second'') = Inr tools'
        \<and> getTool tools' (name (MockTool ''mock_tool'' ''second''))
            = Inr (MockTool ''mock_tool'' ''second'')
        \<and> getToolEnum tools' = getToolEnum [(''mock_tool'', MockTool ''mock_tool'' ''first'')])"
proof -
  have h: "Map_has [(''mock_tool'', MockTool ''mock_tool'' ''first'')]
             (name (MockTool ''mock_tool'' ''second''))"
    by (simp add: Map_has_def MockTool_def)
  from registerTool_duplicate_overwrites [OF h] h show ?thesis by blast
qed

section \<open>Theorems: cycle detection\<close>



text \<open>Case analysis of one call of \<open>hasCycle\<close> and of one step of its loop.\<close>

lemma hasCycle_Suc_cases:
  assumes "hasCycle (Suc k) nodes a (V, S) = Some (Inr (b, s'))"
  obtains (on_stack) "a \<in> S" "b" "s' = (V, S)"
    | (seen) "a \<notin> S" "a \<in> V" "\<not> b" "s' = (V, S)"
    | (found) node where "a \<notin> S" "a \<notin> V" "getNode nodes a = Inr node"
        "hasCycle_deps k nodes (dependencies node) (insert a V, insert a S) = Some (Inr (True, s'))" "b"
    | (finished) node V' S' where "a \<notin> S" "a \<notin> V" "getNode nodes a = Inr node"
        "hasCycle_deps k nodes (dependencies node) (insert a V, insert a S) = Some (Inr (False, (V', S')))"
        "\<not> b" "s' = (V', S' - {a})"
  using assms
  by (auto split: if_splits sum.splits option.splits bool.splits prod.splits)

lemma hasCycle_deps_Cons_cases:
  assumes "hasCycle_deps k nodes (d # ds) s = Some (Inr (b, s'))"
  obtains (found) "hasCycle k nodes d s = Some (Inr (True, s'))" "b"
    | (continue) s1 where "hasCycle k nodes d s = Some (Inr (False, s1))"
        "hasCycle_deps k nodes ds s1 = Some (Inr (b, s'))"
  using assms
  by (auto split: if_splits sum.splits option.splits bool.splits prod.splits)

lemma dfs_mono_deps:
  assumes "\<And>a s b s'. hasCycle k nodes a s = Some (Inr (b, s')) \<Longrightarrow> fst s \<subseteq> fst s'"
  shows "hasCycle_deps k nodes ds s = Some (Inr (b, s')) \<Longrightarrow> fst s \<subseteq> fst s'"
proof (induction ds arbitrary: s)
  case Nil
  then show ?case by simp
next
  case (Cons d ds)
  from Cons.prems show ?case
  proof (cases rule: hasCycle_deps_Cons_cases)
    case found
    then show ?thesis using assms by blast
  next
    case (continue s1)
    from assms [OF continue(1)] Cons.IH [OF continue(2)] show ?thesis by auto
  qed
qed

lemma dfs_mono:
  "hasCycle k nodes a s = Some (Inr (b, s')) \<Longrightarrow> fst s \<subseteq> fst s'"
proof (induction k arbitrary: a s b s')
  case 0
  then show ?case by simp
next
  case (Suc k)
  obtain V S where s: "s = (V, S)" by (cases s)
  from Suc.prems [unfolded s] show ?case
  proof (cases rule: hasCycle_Suc_cases)
    case (found node)
    from dfs_mono_deps [OF Suc.IH found(4)] s show ?thesis by auto
  next
    case (finished node V' S')
    from dfs_mono_deps [OF Suc.IH finished(4)] finished s show ?thesis by auto
  qed (simp_all add: s)
qed

lemma dfs_mono_loop:
  assumes "hasCycle_deps k nodes ds s = Some (Inr (b, s'))"
  shows "fst s \<subseteq> fst s'"
  by (rule dfs_mono_deps [OF _ assms]) (erule dfs_mono)

subsection \<open>The fuel of \<open>validateDAG\<close> is enough\<close>

lemma dfs_fuel_deps:
  assumes "\<And>a V S. card (node_id ` set nodes - V) < k \<Longrightarrow> hasCycle k nodes a (V, S) \<noteq> None"
  shows "card (node_id ` set nodes - V) < k \<Longrightarrow> hasCycle_deps k nodes ds (V, S) \<noteq> None"
proof (induction ds arbitrary: V S)
  case Nil
  then show ?case by simp
next
  case (Cons d ds)
  from assms [OF Cons.prems] obtain r where r: "hasCycle k nodes d (V, S) = Some r" by blast
  show ?case
  proof (cases r)
    case (Inl e)
    with r show ?thesis by simp
  next
    case (Inr p)
    obtain b V1 S1 where p: "p = (b, (V1, S1))" by (cases p) auto
    show ?thesis
    proof (cases b)
      case True
      with r Inr p show ?thesis by simp
    next
      case False
      from dfs_mono [OF r [unfolded Inr p]] have "V \<subseteq> V1" by simp
      then have "card (node_id ` set nodes - V1) \<le> card (node_id ` set nodes - V)"
        by (intro card_mono) auto
      with Cons.prems have "card (node_id ` set nodes - V1) < k" by simp
      from Cons.IH [OF this] r Inr p False show ?thesis by simp
    qed
  qed
qed

lemma dfs_fuel:
  "card (node_id ` set nodes - V) < k \<Longrightarrow> hasCycle k nodes a (V, S) \<noteq> None"
proof (induction k arbitrary: a V S)
  case 0
  then show ?case by simp
next
  case (Suc k)
  show ?case
  proof (cases "a \<in> S \<or> a \<in> V")
    case True
    then show ?thesis by auto
  next
    case False
    show ?thesis
    proof (cases "getNode nodes a")
      case (Inl e)
      with False show ?thesis by simp
    next
      case (Inr node)
      from card_unvisited_less [OF Inr, of V] False Suc.prems
      have "card (node_id ` set nodes - insert a V) < k" by simp
      from dfs_fuel_deps [OF Suc.IH this]
      obtain r where "hasCycle_deps k nodes (dependencies node) (insert a V, insert a S) = Some r"
        by blast
      with False Inr show ?thesis
        by (simp split: sum.splits prod.splits bool.splits)
    qed
  qed
qed

lemma dfs_fuel_loop:
  assumes "card (node_id ` set nodes - V) < k"
  shows "hasCycle_deps k nodes ds (V, S) \<noteq> None"
  by (rule dfs_fuel_deps [OF _ assms]) (erule dfs_fuel)

subsection \<open>No error when every dependency resolves\<close>





subsection \<open>The invariant of the search\<close>

definition dfs_inv :: "workflow_node list \<Rightarrow> dfs_state \<Rightarrow> bool" where
  "dfs_inv nodes s =
     (snd s \<subseteq> fst s
      \<and> (\<forall>a b. a \<in> fst s - snd s \<and> (a, b) \<in> dep_edges nodes \<longrightarrow> b \<in> fst s - snd s)
      \<and> (\<forall>a. a \<in> fst s - snd s \<longrightarrow> (a, a) \<notin> (dep_edges nodes)\<^sup>+))"

lemma closed_trancl:
  assumes "\<forall>a b. a \<in> F \<and> (a, b) \<in> E \<longrightarrow> b \<in> F"
  shows "(a, b) \<in> E\<^sup>+ \<Longrightarrow> a \<in> F \<Longrightarrow> b \<in> F"
  by (induction rule: trancl_induct) (use assms in blast)+

lemma dep_edges_getNode:
  "getNode nodes a = Inr node \<Longrightarrow> (a, b) \<in> dep_edges nodes \<longleftrightarrow> b \<in> set (dependencies node)"
  by (auto simp: dep_edges_def)

lemma dfs_invI:
  assumes "S \<subseteq> V" "\<And>x y. x \<in> V \<Longrightarrow> x \<notin> S \<Longrightarrow> (x, y) \<in> dep_edges nodes \<Longrightarrow> y \<in> V \<and> y \<notin> S"
    "\<And>x. x \<in> V \<Longrightarrow> x \<notin> S \<Longrightarrow> (x, x) \<notin> (dep_edges nodes)\<^sup>+"
  shows "dfs_inv nodes (V, S)"
  unfolding dfs_inv_def fst_conv snd_conv using assms by blast

lemma dfs_invD:
  assumes "dfs_inv nodes (V, S)"
  shows "S \<subseteq> V" "\<And>x y. x \<in> V \<Longrightarrow> x \<notin> S \<Longrightarrow> (x, y) \<in> dep_edges nodes \<Longrightarrow> y \<in> V \<and> y \<notin> S"
    "\<And>x. x \<in> V \<Longrightarrow> x \<notin> S \<Longrightarrow> (x, x) \<notin> (dep_edges nodes)\<^sup>+"
  using assms unfolding dfs_inv_def fst_conv snd_conv by blast+

lemma dfs_inv_finish:
  assumes inv: "dfs_inv nodes (V, insert a S)" and a: "a \<notin> S" "a \<in> V"
    and node: "getNode nodes a = Inr node"
    and deps: "set (dependencies node) \<subseteq> V - insert a S"
  shows "dfs_inv nodes (V, S)"
proof (rule dfs_invI)
  let ?E = "dep_edges nodes"
  let ?F = "V - insert a S"
  note D = dfs_invD [OF inv]
  show "S \<subseteq> V" using D(1) by blast
  have closed: "\<forall>x y. x \<in> ?F \<and> (x, y) \<in> ?E \<longrightarrow> y \<in> ?F"
    using D(2) by blast
  have succ_a: "\<And>y. (a, y) \<in> ?E \<Longrightarrow> y \<in> ?F"
    using deps dep_edges_getNode [OF node] by blast
  show "y \<in> V \<and> y \<notin> S" if "x \<in> V" "x \<notin> S" "(x, y) \<in> ?E" for x y
  proof (cases "x = a")
    case True
    with succ_a that(3) show ?thesis by blast
  next
    case False
    with D(2) [of x y] that show ?thesis by blast
  qed
  show "(x, x) \<notin> ?E\<^sup>+" if "x \<in> V" "x \<notin> S" for x
  proof (cases "x = a")
    case False
    with D(3) [of x] that show ?thesis by blast
  next
    case True
    show ?thesis
    proof
      assume "(x, x) \<in> ?E\<^sup>+"
      then obtain y where y: "(a, y) \<in> ?E" "(y, a) \<in> ?E\<^sup>*"
        unfolding True by (meson tranclD)
      from succ_a [OF y(1)] have yF: "y \<in> ?F" .
      from y(2) have "y = a \<or> (y, a) \<in> ?E\<^sup>+" by (auto simp add: rtrancl_eq_or_trancl)
      then have "a \<in> ?F"
      proof
        assume "y = a" with yF show ?thesis by simp
      next
        assume "(y, a) \<in> ?E\<^sup>+"
        from closed_trancl [OF closed this yF] show ?thesis .
      qed
      then show False by simp
    qed
  qed
qed

lemma dfs_false_deps:
  assumes "\<And>a V S V' S'. hasCycle k nodes a (V, S) = Some (Inr (False, (V', S'))) \<Longrightarrow>
             dfs_inv nodes (V, S) \<Longrightarrow> S' = S \<and> a \<in> V' - S \<and> dfs_inv nodes (V', S)"
  shows "hasCycle_deps k nodes ds (V, S) = Some (Inr (False, (V', S'))) \<Longrightarrow>
           dfs_inv nodes (V, S) \<Longrightarrow> S' = S \<and> set ds \<subseteq> V' - S \<and> dfs_inv nodes (V', S)"
proof (induction ds arbitrary: V)
  case Nil
  then show ?case by simp
next
  case (Cons d ds)
  from Cons.prems(1) show ?case
  proof (cases rule: hasCycle_deps_Cons_cases)
    case found
    then show ?thesis by simp
  next
    case (continue s1)
    obtain V1 S1 where s1: "s1 = (V1, S1)" by (cases s1)
    from assms [OF continue(1) [unfolded s1] Cons.prems(2)]
    have S1: "S1 = S" and d: "d \<in> V1 - S" and inv1: "dfs_inv nodes (V1, S)" by auto
    from Cons.IH [OF continue(2) [unfolded s1 S1] inv1]
    have r: "S' = S" "set ds \<subseteq> V' - S" "dfs_inv nodes (V', S)" by auto
    from dfs_mono_loop [OF continue(2) [unfolded s1]] have "V1 \<subseteq> V'" by simp
    with d r show ?thesis by auto
  qed
qed

lemma dfs_false:
  "hasCycle k nodes a (V, S) = Some (Inr (False, (V', S'))) \<Longrightarrow>
     dfs_inv nodes (V, S) \<Longrightarrow> S' = S \<and> a \<in> V' - S \<and> dfs_inv nodes (V', S)"
proof (induction k arbitrary: a V S V' S')
  case 0
  then show ?case by simp
next
  case (Suc k)
  from Suc.prems(1) show ?case
  proof (cases rule: hasCycle_Suc_cases)
    case on_stack
    then show ?thesis by simp
  next
    case seen
    with Suc.prems(2) show ?thesis by simp
  next
    case (found node)
    then show ?thesis by simp
  next
    case (finished node V1 S1)
    have "insert a V - insert a S = V - S" using finished(1,2) by auto
    moreover note D = dfs_invD [OF Suc.prems(2)]
    ultimately have inv0: "dfs_inv nodes (insert a V, insert a S)"
      using finished(1,2) by (intro dfs_invI) (use D in blast)+
    from dfs_false_deps [OF Suc.IH finished(4) inv0]
    have S1: "S1 = insert a S" and deps: "set (dependencies node) \<subseteq> V1 - insert a S"
      and inv1: "dfs_inv nodes (V1, insert a S)" by auto
    from dfs_mono_loop [OF finished(4)] have aV1: "a \<in> V1" by simp
    from dfs_inv_finish [OF inv1 finished(1) aV1 finished(3) deps]
    have "dfs_inv nodes (V1, S)" .
    moreover have "S1 - {a} = S" using S1 finished(1) by auto
    ultimately show ?thesis using finished(6) aV1 finished(1) by auto
  qed
qed

lemma dfs_false_loop:
  assumes "hasCycle_deps k nodes ds (V, S) = Some (Inr (False, (V', S')))" "dfs_inv nodes (V, S)"
  shows "S' = S \<and> set ds \<subseteq> V' - S \<and> dfs_inv nodes (V', S)"
  by (rule dfs_false_deps [OF _ assms]) (erule (1) dfs_false)

lemma cycle_start_is_node: "(a, a) \<in> (dep_edges nodes)\<^sup>+ \<Longrightarrow> a \<in> node_id ` set nodes"
proof -
  assume "(a, a) \<in> (dep_edges nodes)\<^sup>+"
  then obtain y where "(a, y) \<in> dep_edges nodes" by (meson tranclD)
  then show ?thesis using getNode_Inr by (fastforce simp: dep_edges_def)
qed

lemma validateDAG_returns: "validateDAG nodes \<noteq> None"
proof -
  have "card (node_id ` set nodes - {}) < Suc (length nodes)"
    using card_image_le [of "set nodes" node_id] card_length [of nodes] by simp
  from dfs_fuel_loop [OF this] show ?thesis
    by (auto simp: validateDAG_def split: option.splits sum.splits)
qed

lemma validateDAG_true_acyclic:
  assumes "validateDAG nodes = Some (Inr True)"
  shows "\<not> cyclic nodes"
proof
  assume "cyclic nodes"
  then obtain a where a: "(a, a) \<in> (dep_edges nodes)\<^sup>+" by (auto simp: cyclic_def)
  from assms obtain V S where
    r: "hasCycle_deps (Suc (length nodes)) nodes (map node_id nodes) ({}, {}) = Some (Inr (False, (V, S)))"
    by (auto simp: validateDAG_def split: option.splits sum.splits)
  have "dfs_inv nodes ({}, {})" by (rule dfs_invI) simp_all
  from dfs_false_loop [OF r this]
  have "set (map node_id nodes) \<subseteq> V - {}" "dfs_inv nodes (V, {})" by auto
  with cycle_start_is_node [OF a] a dfs_invD(3) [of nodes V "{}" a] show False by auto
qed


subsection \<open>\<open>validateDAG\<close> accepts acyclic workflows\<close>

lemma dfs_stack_deps:
  assumes "\<And>a V S V' S'. hasCycle k nodes a (V, S) = Some (Inr (False, (V', S'))) \<Longrightarrow> S' = S"
  shows "hasCycle_deps k nodes ds (V, S) = Some (Inr (False, (V', S'))) \<Longrightarrow> S' = S"
proof (induction ds arbitrary: V)
  case Nil
  then show ?case by simp
next
  case (Cons d ds)
  from Cons.prems show ?case
  proof (cases rule: hasCycle_deps_Cons_cases)
    case found
    then show ?thesis by simp
  next
    case (continue s1)
    obtain V1 S1 where s1: "s1 = (V1, S1)" by (cases s1)
    from assms [OF continue(1) [unfolded s1]] have S1: "S1 = S" .
    from Cons.IH [OF continue(2) [unfolded s1 S1]] show ?thesis .
  qed
qed

lemma dfs_stack:
  "hasCycle k nodes a (V, S) = Some (Inr (False, (V', S'))) \<Longrightarrow> S' = S"
proof (induction k arbitrary: a V S V' S')
  case 0
  then show ?case by simp
next
  case (Suc k)
  from Suc.prems show ?case
  proof (cases rule: hasCycle_Suc_cases)
    case (finished node V1 S1)
    from dfs_stack_deps [OF Suc.IH finished(4)] finished show ?thesis by auto
  qed simp_all
qed

lemma dfs_stack_loop:
  assumes "hasCycle_deps k nodes ds (V, S) = Some (Inr (False, (V', S')))"
  shows "S' = S"
  by (rule dfs_stack_deps [OF _ assms]) (erule dfs_stack)








text \<open>
  Without the assumption on the dependency ids \<open>validateDAG\<close> may raise "node not found"
  instead of returning; \<open>execute\<close> still rejects before anything runs.
\<close>

lemma cyclic_workflow_never_runs:
  assumes "cyclic (wf_nodes w)"
  shows "\<exists>e. execute_wf callback events w = (Some (Inl e), w)"
proof (cases "validateDAG (wf_nodes w)")
  case None
  with validateDAG_returns show ?thesis by blast
next
  case (Some r)
  show ?thesis
  proof (cases r)
    case (Inl e)
    with Some show ?thesis by (simp add: execute_wf_def)
  next
    case (Inr b)
    with Some validateDAG_true_acyclic [of "wf_nodes w"] assms have "\<not> b" by auto
    with Some Inr show ?thesis by (simp add: execute_wf_def)
  qed
qed

section \<open>Theorems: structural operations of the workflow\<close>

lemma findIndex_None_iff: "findIndex P xs = None \<longleftrightarrow> (\<forall>x\<in>set xs. \<not> P x)"
  by (induction xs) auto

text \<open>
  C8.  If some node of the workflow lists \<open>nodeId\<close> among its dependencies, \<open>removeNode\<close>
  raises an error (node not found, or node has dependents) and the node list after the
  call is the list before it.
\<close>

theorem removeNode_referenced_fails:
  assumes "n \<in> set nodes" and "nodeId \<in> set (dependencies n)"
  shows "fst (removeNode nodes nodeId) \<noteq> None \<and> snd (removeNode nodes nodeId) = nodes"
proof (cases "findIndex (\<lambda>m. node_id m = nodeId) nodes")
  case None
  then show ?thesis by (simp add: removeNode_def)
next
  case (Some index)
  from assms have "n \<in> set (filter (\<lambda>m. nodeId \<in> set (dependencies m)) nodes)" by simp
  then have "filter (\<lambda>m. nodeId \<in> set (dependencies m)) nodes \<noteq> []" by fastforce
  with Some show ?thesis by (simp add: removeNode_def Let_def)
qed

theorem removeNode_referenced_fails_witness:
  "fst (removeNode [createMockNode ''node1'' [], createMockNode ''node2'' [''node1'']] ''node1'')
     = Some (HasDependents ''node1'' [''node2''])
   \<and> snd (removeNode [createMockNode ''node1'' [], createMockNode ''node2'' [''node1'']] ''node1'')
     = [createMockNode ''node1'' [], createMockNode ''node2'' [''node1'']]"
proof -
  have a: "createMockNode ''node2'' [''node1'']
             \<in> set [createMockNode ''node1'' [], createMockNode ''node2'' [''node1'']]"
    by simp
  have b: "''node1'' \<in> set (dependencies (createMockNode ''node2'' [''node1'']))"
    by (simp add: createMockNode_def)
  have c: "fst (removeNode [createMockNode ''node1'' [], createMockNode ''node2'' [''node1'']] ''node1'')
             = Some (HasDependents ''node1'' [''node2''])"
    by (simp add: removeNode_def createMockNode_def)
  from removeNode_referenced_fails [OF a b] c show ?thesis by simp
qed

section \<open>Theorems: runs of the workflow\<close>

lemma stuck_in_simps [simp]:
  "stuck_in X (commit c st) = stuck_in X st"
  "stuck_in X (update_node n f st) = stuck_in X st"
  "stuck_in X (st\<lparr>wf_abort := b\<rparr>) = stuck_in X st"
  by (simp_all add: stuck_in_def commit_def update_node_def)

lemma check_stuck:
  assumes "stuck_in X st" "X \<notin> fst ` set stack" "nodeId \<noteq> X"
    and "executeNode_check nodeId c stack st = (t', st')"
  shows "stuck_in X st' \<and> X \<notin> live_nodes t'"
  using assms
  by (auto simp: executeNode_check_def stuck_in_def split: if_splits sum.splits)

lemma body_stuck:
  assumes "stuck_in X st" "X \<notin> fst ` set stack" "nodeId \<noteq> X"
    and "executeNode_body callback nodeId stack st = (t', st')"
  shows "stuck_in X st' \<and> X \<notin> live_nodes t'"
proof (cases "getNode (wf_nodes st) nodeId")
  case (Inl e)
  with assms show ?thesis by (auto simp: executeNode_body_def)
next
  case (Inr node)
  show ?thesis
  proof (cases "collect_outputs (wf_nodes st) (dependencies node)")
    case (Inl e)
    with Inr assms show ?thesis by (auto simp: executeNode_body_def)
  next
    case items: (Inr items)
    let ?st = "update_node nodeId (\<lambda>n. n\<lparr>input_items := items\<rparr>) st"
    have st: "stuck_in X ?st" using assms(1) by simp
    show ?thesis
    proof (cases callback)
      case None
      with Inr items assms(4) have "executeNode_check nodeId (new_context ?st) stack ?st = (t', st')"
        by (simp add: executeNode_body_def Let_def)
      from check_stuck [OF st assms(2,3) this] show ?thesis .
    next
      case (Some cb)
      with Inr items assms(4) have "t' = (stack, Suspended nodeId (new_context ?st) BeforeSubtask)" "st' = ?st"
        by (auto simp add: executeNode_body_def Let_def)
      with st assms(2,3) show ?thesis by simp
    qed
  qed
qed

lemma call_stuck:
  "stuck_in X st \<Longrightarrow> X \<notin> fst ` set stack \<Longrightarrow> executeNode_call callback nodeId stack st = (t', st')
     \<Longrightarrow> stuck_in X st' \<and> X \<notin> live_nodes t'"
  "stuck_in X st \<Longrightarrow> X \<notin> fst ` set stack \<Longrightarrow> nodeId \<noteq> X
     \<Longrightarrow> executeNode_deps callback nodeId deps stack st = (t', st')
     \<Longrightarrow> stuck_in X st' \<and> X \<notin> live_nodes t'"
proof (induction callback nodeId stack st and callback nodeId deps stack st
       rule: executeNode_call_executeNode_deps.induct)
  case (1 callback nodeId stack st)
  show ?case
  proof (cases "wf_abort st \<or> nodeId \<in> executed st \<or> nodeId \<in> executing st")
    case True
    with "1.prems" show ?thesis
      by (auto simp: executeNode_call.simps split: if_splits)
  next
    case False
    show ?thesis
    proof (cases "getNode (wf_nodes st) nodeId")
      case (Inl e)
      with False "1.prems" show ?thesis by (auto simp: executeNode_call.simps)
    next
      case (Inr node)
      let ?st = "st\<lparr>executing := insert nodeId (executing st)\<rparr>"
      from False "1.prems"(1) have ne: "nodeId \<noteq> X" by (auto simp: stuck_in_def)
      have st: "stuck_in X ?st" using "1.prems"(1) by (simp add: stuck_in_def)
      from False Inr "1.prems"(3)
      have "executeNode_deps callback nodeId (dependencies node) stack ?st = (t', st')"
        by (simp add: executeNode_call.simps)
      from "1.IH" [OF _ _ _ Inr st "1.prems"(2) ne this] False show ?thesis by simp
    qed
  qed
next
  case (2 callback nodeId stack st)
  then show ?case using body_stuck by simp
next
  case (3 callback nodeId depId rest stack st)
  from "3.prems" have "X \<notin> fst ` set ((nodeId, rest) # stack)" by simp
  from "3.IH" [OF "3.prems"(1) this] "3.prems"(4) show ?case by simp
qed

lemma resume_stuck:
  assumes st: "stuck_in X st" and t: "X \<notin> live_nodes t"
    and r: "executeNode_resume callback t st = (t', st')"
  shows "stuck_in X st' \<and> X \<notin> live_nodes t'"
proof -
  obtain stack top where tt: "t = (stack, top)" by (cases t)
  show ?thesis
  proof (cases top)
    case (Settled res)
    show ?thesis
    proof (cases stack)
      case Nil
      with Settled tt r st t show ?thesis by (simp add: executeNode_resume_def)
    next
      case (Cons fr stack')
      obtain n rest where fr: "fr = (n, rest)" by (cases fr)
      show ?thesis
      proof (cases res)
        case (Some e)
        with Settled tt Cons fr r st show ?thesis by (auto simp: executeNode_resume_def)
      next
        case None
        with Settled tt Cons fr t have "n \<noteq> X" "X \<notin> fst ` set stack'" by auto
        moreover from None Settled tt Cons fr r
        have "executeNode_deps callback n rest stack' st = (t', st')"
          by (simp add: executeNode_resume_def)
        ultimately show ?thesis using call_stuck(2) [OF st] by blast
      qed
    qed
  next
    case (Suspended n c p)
    with tt t have n: "n \<noteq> X" and stack: "X \<notin> fst ` set stack" by auto
    show ?thesis
    proof (cases p)
      case BeforeSubtask
      show ?thesis
      proof (cases "Option.bind callback beforeSubtask")
        case None
        with BeforeSubtask Suspended tt r
        have "executeNode_check n c stack st = (t', st')" by (simp add: executeNode_resume_def)
        from check_stuck [OF st stack n this] show ?thesis .
      next
        case (Some hook)
        show ?thesis
        proof (cases "getNode (wf_nodes st) n")
          case (Inl e)
          with Some BeforeSubtask Suspended tt r st show ?thesis
            by (auto simp: executeNode_resume_def)
        next
          case (Inr node)
          obtain c' res where h: "hook node (refresh st c) = (c', res)" by (cases "hook node (refresh st c)")
          show ?thesis
          proof (cases res)
            case None
            with h Inr Some BeforeSubtask Suspended tt r
            have "executeNode_check n c' stack (commit c' st) = (t', st')"
              by (simp add: executeNode_resume_def)
            from check_stuck [OF _ stack n this] st show ?thesis by simp
          next
            case (Some err)
            with h Inr \<open>Option.bind callback beforeSubtask = Some hook\<close> BeforeSubtask Suspended tt r st
            show ?thesis by (auto simp: executeNode_resume_def)
          qed
        qed
      qed
    next
      case ActionExecute
      show ?thesis
      proof (cases "getNode (wf_nodes st) n")
        case (Inl e)
        with ActionExecute Suspended tt r st show ?thesis
          by (auto simp: executeNode_resume_def)
      next
        case (Inr node)
        obtain c' res where a: "action node (input_items node) (output_obj node) (refresh st c) = (c', res)"
          by (cases "action node (input_items node) (output_obj node) (refresh st c)")
        show ?thesis
        proof (cases res)
          case (Inl err)
          with a Inr ActionExecute Suspended tt r st show ?thesis
            by (auto simp: executeNode_resume_def)
        next
          case v: (Inr v)
          let ?st1 = "update_node n (\<lambda>n. n\<lparr>output_obj := (output_obj n)\<lparr>output_value := v\<rparr>\<rparr>) (commit c' st)"
          let ?st2 = "?st1\<lparr>executing := executing ?st1 - {n}, executed := insert n (executed ?st1)\<rparr>"
          have "stuck_in X ?st1" using st by simp
          then have st2: "stuck_in X ?st2" using n by (simp add: stuck_in_def)
          from v a Inr ActionExecute Suspended tt r
          have "st' = ?st2" "t' = (stack, Settled None) \<or> t' = (stack, Suspended n c' (AfterSubtask v))"
            by (auto simp: executeNode_resume_def Let_def split: option.splits)
          with st2 n stack show ?thesis by auto
        qed
      qed
    next
      case (AfterSubtask v)
      show ?thesis
      proof (cases "Option.bind callback afterSubtask")
        case None
        with AfterSubtask Suspended tt r st stack show ?thesis
          by (auto simp: executeNode_resume_def)
      next
        case (Some hook)
        show ?thesis
        proof (cases "getNode (wf_nodes st) n")
          case (Inl e)
          with Some AfterSubtask Suspended tt r st show ?thesis
            by (auto simp: executeNode_resume_def)
        next
          case (Inr node)
          obtain c' res where h: "hook node (refresh st c) v = (c', res)" by (cases "hook node (refresh st c) v")
          with Inr Some AfterSubtask Suspended tt r st stack show ?thesis
            by (cases res) (auto simp: executeNode_resume_def)
        qed
      qed
    qed
  qed
qed

lemma step_stuck: "stuck X s \<Longrightarrow> stuck X (step callback ev s)"
proof -
  assume s: "stuck X s"
  obtain ts st rej where ss: "s = (ts, st, rej)" by (cases s)
  show ?thesis
  proof (cases ev)
    case Cancel
    with s ss show ?thesis by (simp add: stuck_def)
  next
    case (Resume i)
    show ?thesis
    proof (cases "i < length ts \<and> \<not> task_settled (ts ! i)")
      case False
      with Resume s ss show ?thesis by auto
    next
      case True
      obtain t' st' where r: "executeNode_resume callback (ts ! i) st = (t', st')"
        by (cases "executeNode_resume callback (ts ! i) st")
      from s ss True have "stuck_in X st" "X \<notin> live_nodes (ts ! i)"
        by (auto simp: stuck_def list_all_length)
      from resume_stuck [OF this r] have new: "stuck_in X st'" "X \<notin> live_nodes t'" by auto
      from s ss have "\<forall>t\<in>set ts. X \<notin> live_nodes t" by (simp add: stuck_def list_all_iff)
      with new(2) have "\<forall>t\<in>set (ts[i := t']). X \<notin> live_nodes t"
        using set_update_subset_insert [of ts i t'] by blast
      with new(1) have "stuck_in X st'" "list_all (\<lambda>t. X \<notin> live_nodes t) (ts[i := t'])"
        by (simp_all add: list_all_iff)
      with Resume True r ss show ?thesis by (simp add: stuck_def)
    qed
  qed
qed

lemma run_events_stuck: "stuck X s \<Longrightarrow> stuck X (run_events callback evs s)"
  by (induction evs arbitrary: s) (simp_all add: step_stuck)

lemma resume_dead: "dead t \<Longrightarrow> dead (fst (executeNode_resume callback t st))"
  by (cases t rule: dead.cases) (auto simp: executeNode_resume_def split: list.splits)

lemma first_error_None_iff: "first_error ts = None \<longleftrightarrow> (\<forall>t\<in>set ts. task_error t = None)"
  by (induction ts) (auto split: option.splits)

lemma step_rejection_recorded:
  assumes "rejection_recorded s"
  shows "rejection_recorded (step callback ev s)"
proof -
  obtain ts st rej where ss: "s = (ts, st, rej)" by (cases s)
  show ?thesis
  proof (cases ev)
    case Cancel
    with assms ss show ?thesis by (simp add: rejection_recorded_def)
  next
    case (Resume i)
    show ?thesis
    proof (cases "i < length ts \<and> \<not> task_settled (ts ! i)")
      case False
      with Resume assms ss show ?thesis by auto
    next
      case True
      obtain t' st' where r: "executeNode_resume callback (ts ! i) st = (t', st')"
        by (cases "executeNode_resume callback (ts ! i) st")
      let ?rej = "case rej of None \<Rightarrow> task_error t' | Some e \<Rightarrow> Some e"
      from assms ss obtain j where j: "j < length ts" "dead (ts ! j)"
        by (auto simp: rejection_recorded_def list_ex_length)
      have "dead (ts[i := t'] ! j)"
      proof (cases "j = i")
        case True
        with j resume_dead [of "ts ! i" callback st] r show ?thesis by simp
      next
        case False
        with j show ?thesis by simp
      qed
      with j have d: "list_ex dead (ts[i := t'])" by (auto simp: list_ex_length)
      have "?rej \<noteq> None" if "list_ex (\<lambda>t. task_error t \<noteq> None) (ts[i := t'])"
      proof (cases rej)
        case (Some e)
        then show ?thesis by simp
      next
        case None
        with assms ss have old: "\<forall>t\<in>set ts. task_error t = None"
          by (auto simp: rejection_recorded_def list_ex_iff)
        from that obtain t where "t \<in> set (ts[i := t'])" "task_error t \<noteq> None"
          by (auto simp: list_ex_iff)
        with old set_update_subset_insert [of ts i t'] have "task_error t' \<noteq> None" by auto
        with None show ?thesis by simp
      qed
      with d Resume True r ss show ?thesis by (simp add: rejection_recorded_def)
    qed
  qed
qed

lemma run_events_rejection_recorded:
  "rejection_recorded s \<Longrightarrow> rejection_recorded (run_events callback evs s)"
  by (induction evs arbitrary: s) (simp_all add: step_rejection_recorded)

lemma rejection_recorded_not_resolved:
  assumes "rejection_recorded (ts, st, rej)" "list_all task_settled ts"
  shows "rej \<noteq> None"
proof -
  from assms(1) obtain t where t: "t \<in> set ts" "dead t" by (auto simp: rejection_recorded_def list_ex_iff)
  with assms(2) have "task_settled t" by (simp add: list_all_iff)
  with t(2) have "task_error t \<noteq> None"
    by (cases t rule: dead.cases) (auto elim: task_settled.elims)
  with t(1) assms(1) show ?thesis by (auto simp: rejection_recorded_def list_ex_iff)
qed

lemma shared_dependency_start:
  "\<exists>ts w2. start_all None [''T1'', ''T2''] (new_workflow shared_dependency_workflow) = (ts, w2)
     \<and> stuck ''T2'' (ts, w2, first_error ts) \<and> rejection_recorded (ts, w2, first_error ts)
     \<and> first_error ts = None"
  by (simp add: new_workflow_def shared_dependency_workflow_def createMockNode_def
      executeNode_call.simps getNode_def executeNode_body_def executeNode_check_def
      update_node_def new_context_def stuck_def stuck_in_def rejection_recorded_def)

lemma shared_dependency_valid: "validateDAG shared_dependency_workflow = Some (Inr True)"
  by (simp add: validateDAG_def shared_dependency_workflow_def createMockNode_def getNode_def)

lemma stuck_invoked: "stuck X (ts, st, rej) \<Longrightarrow> X \<notin> fst ` set (invoked st)"
  by (simp add: stuck_def stuck_in_def)

text \<open>
  Two terminal nodes that share a dependency.  The workflow with nodes \<open>A\<close>, \<open>T1\<close> and
  \<open>T2\<close>, where \<open>T1\<close> and \<open>T2\<close> both depend on \<open>A\<close>, is acyclic and passes
  \<open>validateDAG\<close>.  Yet \<open>execute\<close> never resolves, and the action of \<open>T2\<close> is never
  invoked, whatever the order of the events: \<open>map\<close> calls \<open>executeNode\<close> for \<open>T2\<close>
  while \<open>A\<close>, entered from \<open>T1\<close>, is still in \<open>executing\<close>, and the call for \<open>A\<close>
  throws the cyclic-dependency error.  Once the rejection has reached \<open>Promise.all\<close>,
  \<open>execute\<close> has rejected with that error.
\<close>

theorem shared_dependency_fails:
  "validateDAG shared_dependency_workflow = Some (Inr True)
   \<and> (\<forall>events. ''T2'' \<notin> fst ` set (invoked (snd (execute_wf None events (new_workflow shared_dependency_workflow))))
         \<and> (\<forall>outs. fst (execute_wf None events (new_workflow shared_dependency_workflow)) \<noteq> Some (Inr outs)))
   \<and> fst (execute_wf None [Resume 1] (new_workflow shared_dependency_workflow))
       = Some (Inl (CyclicDependency ''A''))"
proof (intro conjI allI)
  show "validateDAG shared_dependency_workflow = Some (Inr True)" by (rule shared_dependency_valid)
next
  show "fst (execute_wf None [Resume 1] (new_workflow shared_dependency_workflow))
       = Some (Inl (CyclicDependency ''A''))"
    by (simp add: execute_wf_def new_workflow_def shared_dependency_workflow_def createMockNode_def
      validateDAG_def getNode_def terminalNodes_def executeNode_call.simps executeNode_body_def
      executeNode_check_def update_node_def new_context_def executeNode_resume_def
      run_workflow_hook_def)
next
  fix events
  let ?w = "new_workflow shared_dependency_workflow"
  from shared_dependency_start obtain ts w2 where
    start: "start_all None [''T1'', ''T2''] ?w = (ts, w2)"
    and st: "stuck ''T2'' (ts, w2, None)" and rr: "rejection_recorded (ts, w2, None)"
    and fe: "first_error ts = None" by auto
  obtain ts' w3 rej where run: "run_events None events (ts, w2, None) = (ts', w3, rej)"
    by (cases "run_events None events (ts, w2, None)")
  have tn: "map node_id (terminalNodes (wf_nodes ?w)) = [''T1'', ''T2'']"
    by (simp add: terminalNodes_def new_workflow_def shared_dependency_workflow_def createMockNode_def)
  have w1: "?w\<lparr>wf_abort := False\<rparr> = ?w" "?w\<lparr>executed := {}, executing := {}\<rparr> = ?w"
    by (simp_all add: new_workflow_def)
  have ex: "execute_wf None events ?w =
     (case rej of Some e \<Rightarrow> (Some (Inl e), w3)
      | None \<Rightarrow> if list_all task_settled ts'
                then (Some (Inr (map output_obj (terminalNodes (wf_nodes w3)))), w3) else (None, w3))"
    using shared_dependency_valid start run fe tn
    by (simp add: execute_wf_def run_workflow_hook_def w1 new_workflow_def split: option.splits)
  from run_events_stuck [OF st, of None events] run have "''T2'' \<notin> fst ` set (invoked w3)"
    by (simp add: stuck_invoked)
  then show "''T2'' \<notin> fst ` set (invoked (snd (execute_wf None events ?w)))"
    by (simp add: ex split: option.splits)
  from run_events_rejection_recorded [OF rr, of None events] run
  have "rejection_recorded (ts', w3, rej)" by simp
  from rejection_recorded_not_resolved [OF this]
  show "fst (execute_wf None events ?w) \<noteq> Some (Inr outs)" for outs
    by (auto simp add: ex split: option.splits)
qed

lemma task_error_resolved [simp]: "task_error (stack, Settled None) = None"
  by (cases stack) simp_all

lemma executeNode_call_again:
  assumes "N \<in> executing st" "N \<notin> executed st"
  shows "executeNode_call callback N stack st =
           ((stack, Settled (Some (if wf_abort st then Terminated else CyclicDependency N))), st)"
  using assms by (simp add: executeNode_call.simps)

text \<open>
  C9 (amended).  Let the innermost call of a task be suspended at the \<open>beforeSubtask\<close>
  hook of a node \<open>N\<close> (which is in \<open>executing\<close>, as every node is from its call on), and
  let the hook set the skip flag and not the abort flag.  Then resuming the task returns
  from the call of \<open>N\<close> without touching \<open>executing\<close> or \<open>executed\<close>; and after any
  further events \<open>N\<close> is still in \<open>executing\<close>, not in \<open>executed\<close>, its action has
  not been invoked, and a call of \<open>executeNode\<close> for \<open>N\<close> throws: the cyclic-dependency
  error for \<open>N\<close>, or the error "terminated" when the abort flag of the workflow is set.
  The first conjunct is that a call for a node not yet entered adds it to \<open>executing\<close>
  before the loop over its dependencies.
\<close>

theorem skipped_node_stays_executing:
  assumes cb: "callback = Some cb" "beforeSubtask cb = Some hook"
    and ti: "i < length ts" "ts ! i = (stack, Suspended N c BeforeSubtask)"
    and node: "getNode (wf_nodes st) N = Inr node"
    and hk: "hook node (refresh st c) = (c', None)" "skip_flag c'" "\<not> abort_flag c'"
    and N: "N \<in> executing st" "N \<notin> executed st" "N \<notin> fst ` set (invoked st)"
    and alone: "N \<notin> fst ` set stack" "\<forall>j<length ts. j \<noteq> i \<longrightarrow> N \<notin> live_nodes (ts ! j)"
  shows "(\<forall>st0 stack0 node0.
            \<not> wf_abort st0 \<and> N \<notin> executed st0 \<and> N \<notin> executing st0
            \<and> getNode (wf_nodes st0) N = Inr node0 \<longrightarrow>
            executeNode_call callback N stack0 st0 =
              executeNode_deps callback N (dependencies node0) stack0
                (st0\<lparr>executing := insert N (executing st0)\<rparr>))
     \<and> step callback (Resume i) (ts, st, rej) = (ts[i := (stack, Settled None)], commit c' st, rej)
     \<and> (\<forall>events. case run_events callback events (step callback (Resume i) (ts, st, rej)) of
           (ts', st', rej') \<Rightarrow>
             N \<in> executing st' \<and> N \<notin> executed st' \<and> N \<notin> fst ` set (invoked st')
             \<and> (\<forall>stack'. executeNode_call callback N stack' st' =
                   ((stack', Settled (Some (if wf_abort st' then Terminated else CyclicDependency N))), st')))"
proof (intro conjI allI)
  show "\<not> wf_abort st0 \<and> N \<notin> executed st0 \<and> N \<notin> executing st0
            \<and> getNode (wf_nodes st0) N = Inr node0 \<longrightarrow>
            executeNode_call callback N stack0 st0 =
              executeNode_deps callback N (dependencies node0) stack0
                (st0\<lparr>executing := insert N (executing st0)\<rparr>)" for st0 stack0 node0
    by (simp add: executeNode_call.simps)
next
  have r: "executeNode_resume callback (ts ! i) st = ((stack, Settled None), commit c' st)"
    using cb ti node hk by (simp add: executeNode_resume_def executeNode_check_def)
  with ti show s: "step callback (Resume i) (ts, st, rej) = (ts[i := (stack, Settled None)], commit c' st, rej)"
    by (simp split: option.splits)
  have "N \<notin> live_nodes (ts[i := (stack, Settled None)] ! j)" if "j < length ts" for j
    using that alone ti(1) by (cases "j = i") simp_all
  then have "list_all (\<lambda>t. N \<notin> live_nodes t) (ts[i := (stack, Settled None)])"
    by (simp add: list_all_length)
  with N have st: "stuck N (step callback (Resume i) (ts, st, rej))"
    unfolding s by (simp add: stuck_def stuck_in_def commit_def)
  fix events
  obtain ts' st' rej' where run: "run_events callback events (step callback (Resume i) (ts, st, rej)) = (ts', st', rej')"
    by (cases "run_events callback events (step callback (Resume i) (ts, st, rej))")
  from run_events_stuck [OF st, of callback events] run have "stuck_in N st'"
    by (simp add: stuck_def)
  then have "N \<in> executing st'" "N \<notin> executed st'" "N \<notin> fst ` set (invoked st')"
    by (simp_all add: stuck_in_def)
  with executeNode_call_again [of N st' callback] run
  show "case run_events callback events (step callback (Resume i) (ts, st, rej)) of
           (ts', st', rej') \<Rightarrow>
             N \<in> executing st' \<and> N \<notin> executed st' \<and> N \<notin> fst ` set (invoked st')
             \<and> (\<forall>stack'. executeNode_call callback N stack' st' =
                   ((stack', Settled (Some (if wf_abort st' then Terminated else CyclicDependency N))), st'))"
    by simp
qed

lemma skip_example_start:
  "start_all (Some (skip_callback ''N'')) (map node_id (terminalNodes skip_example)) (new_workflow skip_example)
     = ([([(''T'', [''B''])], Suspended ''N'' (new_context (new_workflow skip_example)) BeforeSubtask)],
        skip_example_state)"
  by (simp add: skip_example_def skip_example_state_def new_workflow_def terminalNodes_def
      createMockNode_def executeNode_call.simps getNode_def executeNode_body_def update_node_def
      new_context_def insert_commute)

theorem skipped_node_stays_executing_witness:
  "step (Some (skip_callback ''N'')) (Resume 0)
        ([([(''T'', [''B''])], Suspended ''N'' (new_context (new_workflow skip_example)) BeforeSubtask)],
         skip_example_state, None)
     = ([([(''T'', [''B''])], Settled None)], skip_example_state, None)
   \<and> (case run_events (Some (skip_callback ''N'')) [Resume 0]
             ([([(''T'', [''B''])], Settled None)], skip_example_state, None) of
         (ts', st', rej') \<Rightarrow>
           ts' = [([(''B'', []), (''T'', [])], Settled (Some (CyclicDependency ''N'')))]
           \<and> ''N'' \<in> executing st' \<and> ''N'' \<notin> executed st' \<and> invoked st' = [])"
proof -
  let ?cb = "skip_callback ''N''"
  let ?c = "new_context (new_workflow skip_example)"
  let ?ts = "[([(''T'', [''B''])], Suspended ''N'' ?c BeforeSubtask)]"
  let ?hook = "\<lambda>node c. (if node_id node = ''N'' then c\<lparr>skip_flag := True\<rparr> else c, None :: thrown option)"
  have 1: "Some ?cb = Some ?cb" "beforeSubtask ?cb = Some ?hook"
    by (simp_all add: skip_callback_def)
  have 2: "0 < length ?ts" "?ts ! 0 = ([(''T'', [''B''])], Suspended ''N'' ?c BeforeSubtask)"
    by simp_all
  have 3: "getNode (wf_nodes skip_example_state) ''N'' = Inr (createMockNode ''N'' [])"
    by (simp add: skip_example_state_def skip_example_def getNode_def createMockNode_def)
  let ?c' = "(refresh skip_example_state ?c)\<lparr>skip_flag := True\<rparr>"
  have 4: "?hook (createMockNode ''N'' []) (refresh skip_example_state ?c) = (?c', None)"
    "skip_flag ?c'" "\<not> abort_flag ?c'"
    by (simp_all add: createMockNode_def refresh_def new_context_def)
  have 5: "''N'' \<in> executing skip_example_state" "''N'' \<notin> executed skip_example_state"
    "''N'' \<notin> fst ` set (invoked skip_example_state)"
    by (simp_all add: skip_example_state_def)
  have 6: "''N'' \<notin> fst ` set [(''T'', [''B''])]" "\<forall>j<length ?ts. j \<noteq> 0 \<longrightarrow> ''N'' \<notin> live_nodes (?ts ! j)"
    by simp_all
  have c: "commit ?c' skip_example_state = skip_example_state"
    by (simp add: commit_def refresh_def new_context_def skip_example_state_def new_workflow_def)
  from skipped_node_stays_executing [OF 1 2 3 4 5 6, of None]
  have "step (Some ?cb) (Resume 0) (?ts, skip_example_state, None)
           = ([([(''T'', [''B''])], Settled None)], skip_example_state, None)"
    by (simp add: c)
  moreover have "run_events (Some ?cb) [Resume 0] ([([(''T'', [''B''])], Settled None)], skip_example_state, None)
     = ([([(''B'', []), (''T'', [])], Settled (Some (CyclicDependency ''N'')))],
        skip_example_state\<lparr>executing := {''B'', ''N'', ''T''}\<rparr>, None)"
    by (simp add: executeNode_resume_def executeNode_call.simps skip_example_state_def
        skip_example_def getNode_def createMockNode_def)
  ultimately show ?thesis by (simp add: skip_example_state_def)
qed

text \<open>
  C9 as stated fails when the workflow is cancelled between the skip and the second call:
  in the workflow with terminal nodes \<open>T1\<close> (depending on \<open>N\<close>) and \<open>T2\<close> (depending on
  \<open>M\<close> and \<open>N\<close>), \<open>N\<close> is skipped from \<open>T1\<close>, \<open>cancel()\<close> is called while the action of
  \<open>M\<close> runs, and the call of \<open>executeNode\<close> for \<open>N\<close> from \<open>T2\<close> throws "terminated",
  not the cyclic-dependency error.
\<close>

theorem skipped_node_second_call_counterexample:
  "fst (execute_wf (Some (skip_callback ''N'')) [Resume 0, Resume 1, Cancel, Resume 1, Resume 1]
          (new_workflow cancel_example)) = None
   \<and> ''N'' \<in> executing (snd (execute_wf (Some (skip_callback ''N''))
          [Resume 0, Resume 1, Cancel, Resume 1, Resume 1] (new_workflow cancel_example)))
   \<and> ''N'' \<notin> executed (snd (execute_wf (Some (skip_callback ''N''))
          [Resume 0, Resume 1, Cancel, Resume 1, Resume 1] (new_workflow cancel_example)))
   \<and> fst (executeNode_call (Some (skip_callback ''N'')) ''N'' [(''T2'', [])]
          (snd (execute_wf (Some (skip_callback ''N''))
             [Resume 0, Resume 1, Cancel, Resume 1, Resume 1] (new_workflow cancel_example))))
       = ([(''T2'', [])], Settled (Some Terminated))
   \<and> fst (execute_wf (Some (skip_callback ''N''))
          [Resume 0, Resume 1, Cancel, Resume 1, Resume 1, Resume 1, Resume 1]
          (new_workflow cancel_example)) = Some (Inl Terminated)"
  by (simp add: execute_wf_def new_workflow_def cancel_example_def createMockNode_def
      validateDAG_def getNode_def terminalNodes_def executeNode_call.simps executeNode_body_def
      executeNode_check_def update_node_def new_context_def executeNode_resume_def
      run_workflow_hook_def skip_callback_def refresh_def commit_def)

subsection \<open>Runs of a workflow with one terminal node\<close>
















lemma task_caller [simp]:
  "task_settled (f # stack, i) = False"
  "task_error (f # stack, i) = None"
  by simp_all


























lemma run_inv_variables [simp]: "run_inv ns (st\<lparr>wf_variables := vars\<rparr>) = run_inv ns st"
  by (simp add: run_inv_def log_ok_def)









section \<open>Theorems: history of tool results\<close>

lemma handle_from_last_found:
  "handle_from_last True ms = map downgrade_older ms"
  by (induction ms) (simp_all add: downgrade_older_def)

lemma handle_from_last_no_user:
  "\<forall>m\<in>set ms. msg_role m \<noteq> User \<Longrightarrow> handle_from_last b ms = ms"
  by (induction ms) simp_all

lemma handle_from_last_split:
  assumes "msg_role u = User" "\<forall>m\<in>set later. msg_role m \<noteq> User"
  shows "handle_from_last False (later @ u # earlier) = later @ u # map downgrade_older earlier"
  using assms(2) by (induction later) (simp_all add: assms(1) handle_from_last_found)

lemma handleHistory_split:
  assumes "msg_role u = User" "\<forall>m\<in>set post. msg_role m \<noteq> User"
  shows "handleHistoryImageMessages (pre @ u # post) = map downgrade_older pre @ u # post"
proof -
  have "rev (pre @ u # post) = rev post @ u # rev pre" by simp
  moreover have "\<forall>m\<in>set (rev post). msg_role m \<noteq> User" using assms(2) by simp
  ultimately show ?thesis
    using handle_from_last_split [OF assms(1), of "rev post" "rev pre"]
    by (simp add: handleHistoryImageMessages_def rev_map)
qed

lemma handleHistory_no_user:
  "\<forall>m\<in>set ms. msg_role m \<noteq> User \<Longrightarrow> handleHistoryImageMessages ms = ms"
  by (simp add: handleHistoryImageMessages_def handle_from_last_no_user)

lemma strip_item_idem: "strip_item (strip_item item) = strip_item item"
proof (cases item rule: strip_item.cases)
  case (1 tid bs err)
  then show ?thesis by (auto simp: Let_def filter_empty_conv)
qed simp_all

lemma strip_item_no_images: "item_images (strip_item item) = 0"
proof (cases item rule: strip_item.cases)
  case (1 tid bs err)
  then show ?thesis by (auto simp: Let_def filter_empty_conv)
qed simp_all

lemma strip_message_idem: "strip_message (strip_message m) = strip_message m"
  by (cases "msg_content m") (simp_all add: strip_message_def strip_item_idem)

lemma strip_message_role [simp]: "msg_role (strip_message m) = msg_role m"
  by (cases "msg_content m") (simp_all add: strip_message_def)

lemma strip_message_no_images: "message_images (strip_message m) = 0"
  by (cases "msg_content m") (simp_all add: strip_message_def message_images_def strip_item_no_images comp_def)

lemma downgrade_older_idem: "downgrade_older (downgrade_older m) = downgrade_older m"
  by (simp add: downgrade_older_def strip_message_idem)

lemma downgrade_older_role [simp]: "msg_role (downgrade_older m) = msg_role m"
  by (simp add: downgrade_older_def)

lemma handle_from_last_idem:
  "handle_from_last b (handle_from_last b ms) = handle_from_last b ms"
  by (induction ms arbitrary: b) (simp_all add: strip_message_idem)

lemma handle_from_last_length [simp]: "length (handle_from_last b ms) = length ms"
  by (induction ms arbitrary: b) simp_all

lemma handleHistory_idem:
  "handleHistoryImageMessages (handleHistoryImageMessages ms) = handleHistoryImageMessages ms"
  by (simp add: handleHistoryImageMessages_def handle_from_last_idem)

lemma strip_item_top_images: "item_top_images (strip_item item) = item_top_images item"
  by (cases item rule: strip_item.cases) (simp_all add: Let_def)

lemma strip_message_all_images:
  "message_all_images m = message_images m \<Longrightarrow> message_all_images (strip_message m) = 0"
proof (cases "msg_content m")
  case (TextContent t)
  then show ?thesis by (simp add: strip_message_def message_all_images_def)
next
  case (ArrayContent items)
  assume "message_all_images m = message_images m"
  with ArrayContent have "sum_list (map item_top_images items) = 0"
    by (simp add: message_all_images_def message_images_def)
  with ArrayContent show ?thesis
    by (simp add: strip_message_def message_all_images_def comp_def strip_item_top_images
        strip_item_no_images)
qed

lemma strip_item_all_images:
  assumes "bs \<noteq> []" "list_all is_image bs"
  shows "strip_item (ToolResultItem tid (ContentArray bs) err)
           = ToolResultItem tid (ContentArray [TextBlock (JStr ''ok'')]) err"
  using assms by (simp add: Let_def filter_empty_conv list_all_iff)

text \<open>
  C6.  Let \<open>u\<close> be the most recent user message of a conversation.  One application of
  \<open>handleHistoryImageMessages\<close> keeps \<open>u\<close> and all that follows, keeps every message
  before \<open>u\<close> that is not a user message, and strips every user message before \<open>u\<close>;
  after it no tool result of an older user message contains an image; a tool result whose
  non-empty content consisted of images only now consists of the single text block \<open>ok\<close>;
  in a conversation whose images all sit in tool results of user messages, no message but
  \<open>u\<close> has any image content left; and a second application changes nothing.
\<close>

theorem history_images_trimmed:
  assumes "msg_role u = User" and "\<forall>m\<in>set post. msg_role m \<noteq> User"
  shows "handleHistoryImageMessages (pre @ u # post) = map downgrade_older pre @ u # post
     \<and> (\<forall>m\<in>set (map downgrade_older pre). msg_role m = User \<longrightarrow> message_images m = 0)
     \<and> (\<forall>tid bs err. bs \<noteq> [] \<and> list_all is_image bs \<longrightarrow>
           strip_item (ToolResultItem tid (ContentArray bs) err)
             = ToolResultItem tid (ContentArray [TextBlock (JStr ''ok'')]) err)
     \<and> (tool_results_in_user_turns (pre @ u # post) \<longrightarrow>
           (\<forall>m\<in>set (map downgrade_older pre @ post). message_all_images m = 0))
     \<and> handleHistoryImageMessages (handleHistoryImageMessages (pre @ u # post))
           = handleHistoryImageMessages (pre @ u # post)"
proof (intro conjI)
  show "handleHistoryImageMessages (pre @ u # post) = map downgrade_older pre @ u # post"
    by (rule handleHistory_split [OF assms])
  show "\<forall>m\<in>set (map downgrade_older pre). msg_role m = User \<longrightarrow> message_images m = 0"
    by (auto simp: downgrade_older_def strip_message_no_images)
  show "\<forall>tid bs err. bs \<noteq> [] \<and> list_all is_image bs \<longrightarrow>
           strip_item (ToolResultItem tid (ContentArray bs) err)
             = ToolResultItem tid (ContentArray [TextBlock (JStr ''ok'')]) err"
    using strip_item_all_images by blast
  show "tool_results_in_user_turns (pre @ u # post) \<longrightarrow>
           (\<forall>m\<in>set (map downgrade_older pre @ post). message_all_images m = 0)"
  proof (intro impI ballI)
    fix m
    assume shape: "tool_results_in_user_turns (pre @ u # post)"
      and m: "m \<in> set (map downgrade_older pre @ post)"
    from m consider (older) m0 where "m0 \<in> set pre" "m = downgrade_older m0" | (later) "m \<in> set post"
      by auto
    then show "message_all_images m = 0"
    proof cases
      case older
      from shape older(1) have m0: "message_all_images m0 = message_images m0"
        "msg_role m0 \<noteq> User \<Longrightarrow> message_images m0 = 0"
        by (auto simp: tool_results_in_user_turns_def list_all_iff split: if_splits)
      show ?thesis
      proof (cases "msg_role m0 = User")
        case True
        with older(2) strip_message_all_images [OF m0(1)] show ?thesis
          by (simp add: downgrade_older_def)
      next
        case False
        with older(2) m0 show ?thesis by (simp add: downgrade_older_def)
      qed
    next
      case later
      with assms(2) have "msg_role m \<noteq> User" by blast
      with shape later show ?thesis
        by (auto simp: tool_results_in_user_turns_def list_all_iff split: if_splits)
    qed
  qed
  show "handleHistoryImageMessages (handleHistoryImageMessages (pre @ u # post))
           = handleHistoryImageMessages (pre @ u # post)"
    by (rule handleHistory_idem)
qed

theorem history_images_trimmed_witness:
  "handleHistoryImageMessages (screenshot_history @ [screenshot_result ''t3'' [ImageBlock (JStr ''png3'')]])
     = [\<lparr> msg_role = System, msg_content = TextContent ''system'' \<rparr>,
        \<lparr> msg_role = User, msg_content = TextContent ''task'' \<rparr>,
        tool_use_message ''t1'',
        screenshot_result ''t1'' [TextBlock (JStr ''first'')],
        tool_use_message ''t2'',
        screenshot_result ''t2'' [TextBlock (JStr ''ok'')],
        tool_use_message ''t3'',
        screenshot_result ''t3'' [ImageBlock (JStr ''png3'')]]
   \<and> countImages (screenshot_history @ [screenshot_result ''t3'' [ImageBlock (JStr ''png3'')]]) = 3
   \<and> countImages (handleHistoryImageMessages
         (screenshot_history @ [screenshot_result ''t3'' [ImageBlock (JStr ''png3'')]])) = 1
   \<and> handleHistoryImageMessages (handleHistoryImageMessages
         (screenshot_history @ [screenshot_result ''t3'' [ImageBlock (JStr ''png3'')]]))
       = handleHistoryImageMessages
           (screenshot_history @ [screenshot_result ''t3'' [ImageBlock (JStr ''png3'')]])"
proof -
  let ?u = "screenshot_result ''t3'' [ImageBlock (JStr ''png3'')]"
  have u: "msg_role ?u = User" by (simp add: screenshot_result_def)
  have post: "\<forall>m\<in>set []. msg_role m \<noteq> User" by simp
  note t = history_images_trimmed [OF u post, of screenshot_history]
  have pre: "map downgrade_older screenshot_history
     = [\<lparr> msg_role = System, msg_content = TextContent ''system'' \<rparr>,
        \<lparr> msg_role = User, msg_content = TextContent ''task'' \<rparr>,
        tool_use_message ''t1'',
        screenshot_result ''t1'' [TextBlock (JStr ''first'')],
        tool_use_message ''t2'',
        screenshot_result ''t2'' [TextBlock (JStr ''ok'')],
        tool_use_message ''t3'']"
    by (simp add: screenshot_history_def downgrade_older_def strip_message_def
        screenshot_result_def tool_use_message_def)
  have c0: "countImages (screenshot_history @ [?u]) = 3"
    by (simp add: countImages_def message_images_def screenshot_history_def
        screenshot_result_def tool_use_message_def)
  have c1: "countImages (map downgrade_older screenshot_history @ [?u]) = 1"
    unfolding pre
    by (simp add: countImages_def message_images_def screenshot_result_def tool_use_message_def)
  have a: "handleHistoryImageMessages (screenshot_history @ [?u])
             = map downgrade_older screenshot_history @ [?u]"
    by (rule t [THEN conjunct1])
  have d: "handleHistoryImageMessages (handleHistoryImageMessages (screenshot_history @ [?u]))
             = handleHistoryImageMessages (screenshot_history @ [?u])"
    by (rule t [THEN conjunct2, THEN conjunct2, THEN conjunct2, THEN conjunct2])
  show ?thesis
  proof (intro conjI)
    show "handleHistoryImageMessages (screenshot_history @ [?u])
     = [\<lparr> msg_role = System, msg_content = TextContent ''system'' \<rparr>,
        \<lparr> msg_role = User, msg_content = TextContent ''task'' \<rparr>,
        tool_use_message ''t1'',
        screenshot_result ''t1'' [TextBlock (JStr ''first'')],
        tool_use_message ''t2'',
        screenshot_result ''t2'' [TextBlock (JStr ''ok'')],
        tool_use_message ''t3'',
        screenshot_result ''t3'' [ImageBlock (JStr ''png3'')]]"
      unfolding a pre by simp
    show "countImages (screenshot_history @ [?u]) = 3" by (rule c0)
    show "countImages (handleHistoryImageMessages (screenshot_history @ [?u])) = 1"
      unfolding a by (rule c1)
    show "handleHistoryImageMessages (handleHistoryImageMessages (screenshot_history @ [?u]))
             = handleHistoryImageMessages (screenshot_history @ [?u])"
      by (rule d)
  qed
qed

section \<open>Theorems: the round loop of an action\<close>

lemma executeSingleRound_rounds:
  assumes "executeSingleRound ext provider hooks kind offered toolMap st = Inr (r, st')"
  shows "ls_rounds st' = ls_rounds st @ [kind]"
  using assms
  by (auto simp: executeSingleRound_def Let_def split: option.splits prod.splits if_splits)

lemma return_only_round_rounds:
  assumes "return_only_round ext provider hooks kind returnTool t st = Inr st'"
  shows "ls_rounds st' = ls_rounds st @ [kind]"
proof -
  from assms obtain r st1 where
    "executeSingleRound ext provider hooks kind [name returnTool] [(name returnTool, returnTool)]
       (push_messages [user_text t] st) = Inr (r, st1)" and "st' = push_messages (roundMessages r) st1"
    by (auto simp: return_only_round_def split: sum.splits)
  with executeSingleRound_rounds [OF this(1)] show ?thesis by (simp add: push_messages_def)
qed

lemma loop_traceI:
  assumes "ks = replicate n Regular @ fin" "fin = [] \<or> fin = [RequestReturn] \<or> fin = [MaxRoundsReturn]"
    "if roundCount < maxR then int n \<le> maxR - roundCount else n = 0 \<and> fin = []"
    "fin = [MaxRoundsReturn] \<Longrightarrow> int n = maxR - roundCount"
  shows "loop_trace maxR roundCount ks"
  unfolding loop_trace_def using assms by blast

lemma loop_trace_step:
  assumes "roundCount < maxR" "loop_trace maxR (roundCount + 1) ks"
  shows "loop_trace maxR roundCount (Regular # ks)"
proof -
  from assms(2) obtain n fin where h: "ks = replicate n Regular @ fin"
    "fin = [] \<or> fin = [RequestReturn] \<or> fin = [MaxRoundsReturn]"
    "if roundCount + 1 < maxR then int n \<le> maxR - (roundCount + 1) else n = 0 \<and> fin = []"
    "fin = [MaxRoundsReturn] \<longrightarrow> int n = maxR - (roundCount + 1)"
    unfolding loop_trace_def by blast
  show ?thesis
  proof (rule loop_traceI [of _ "Suc n" fin])
    show "Regular # ks = replicate (Suc n) Regular @ fin" using h(1) by simp
    show "fin = [] \<or> fin = [RequestReturn] \<or> fin = [MaxRoundsReturn]" by (rule h(2))
    show "if roundCount < maxR then int (Suc n) \<le> maxR - roundCount else Suc n = 0 \<and> fin = []"
      using assms(1) h(3) by (auto split: if_splits)
    show "int (Suc n) = maxR - roundCount" if "fin = [MaxRoundsReturn]"
      using that h(3,4) by (auto split: if_splits)
  qed
qed

lemma round_loop_rounds:
  "round_loop ext provider hooks maxR returnTool offered toolMap roundCount st = Inr st'
     \<Longrightarrow> \<exists>ks. ls_rounds st' = ls_rounds st @ ks \<and> loop_trace maxR roundCount ks"
proof (induction ext provider hooks maxR returnTool offered toolMap roundCount st
       arbitrary: st' rule: round_loop.induct)
  case (1 ext provider hooks maxR returnTool offered toolMap roundCount st)
  show ?case
  proof (cases "roundCount < maxR")
    case False
    with "1.prems" have "st' = st" by (simp add: round_loop.simps)
    moreover have "loop_trace maxR roundCount []"
      by (rule loop_traceI [of _ 0 "[]"]) (use False in auto)
    ultimately show ?thesis by auto
  next
    case lt: True
    with "1.prems" have na: "\<not> signal_aborted (ls_context st)"
      by (auto simp: round_loop.simps split: if_splits)
    from lt na "1.prems" obtain r st1 where
      round: "executeSingleRound ext provider hooks Regular offered toolMap st = Inr (r, st1)"
      by (auto simp: round_loop.simps split: sum.splits)
    let ?st2 = "push_messages (roundMessages r) st1"
    have r2: "ls_rounds ?st2 = ls_rounds st @ [Regular]"
      using executeSingleRound_rounds [OF round] by (simp add: push_messages_def)
    consider (plain) "\<not> hasToolUse r \<and> response r \<noteq> None"
      | (ret) "\<not> (\<not> hasToolUse r \<and> response r \<noteq> None)" "calls_return_output (response r)"
      | (final) "\<not> (\<not> hasToolUse r \<and> response r \<noteq> None)" "\<not> calls_return_output (response r)"
          "roundCount + 1 = maxR"
      | (more) "\<not> (\<not> hasToolUse r \<and> response r \<noteq> None)" "\<not> calls_return_output (response r)"
          "roundCount + 1 \<noteq> maxR"
      by blast
    then show ?thesis
    proof cases
      case plain
      with lt na round "1.prems"
      have "return_only_round ext provider hooks RequestReturn returnTool request_return_text ?st2 = Inr st'"
        by (auto simp: round_loop.simps Let_def split: if_splits)
      from return_only_round_rounds [OF this] r2
      have "ls_rounds st' = ls_rounds st @ [Regular, RequestReturn]" by simp
      moreover have "loop_trace maxR roundCount [Regular, RequestReturn]"
        by (rule loop_traceI [of _ 1 "[RequestReturn]"]) (use lt in auto)
      ultimately show ?thesis by blast
    next
      case ret
      with lt na round "1.prems" have "st' = ?st2"
        by (auto simp: round_loop.simps Let_def split: if_splits)
      with r2 have "ls_rounds st' = ls_rounds st @ [Regular]" by simp
      moreover have "loop_trace maxR roundCount [Regular]"
        by (rule loop_traceI [of _ 1 "[]"]) (use lt in auto)
      ultimately show ?thesis by blast
    next
      case final
      with lt na round "1.prems" obtain st3 where
        f: "return_only_round ext provider hooks MaxRoundsReturn returnTool max_rounds_text ?st2 = Inr st3"
        and l: "round_loop ext provider hooks maxR returnTool offered toolMap (roundCount + 1) st3 = Inr st'"
        by (auto simp: round_loop.simps Let_def split: sum.splits if_splits)
      from l final(3) have "st' = st3" by (simp add: round_loop.simps)
      with return_only_round_rounds [OF f] r2
      have "ls_rounds st' = ls_rounds st @ [Regular, MaxRoundsReturn]" by simp
      moreover have "loop_trace maxR roundCount [Regular, MaxRoundsReturn]"
        by (rule loop_traceI [of _ 1 "[MaxRoundsReturn]"]) (use lt final(3) in auto)
      ultimately show ?thesis by blast
    next
      case more
      with lt na round "1.prems"
      have l: "round_loop ext provider hooks maxR returnTool offered toolMap (roundCount + 1) ?st2 = Inr st'"
        by (auto simp: round_loop.simps Let_def split: if_splits)
      from "1.IH"(2) [OF lt na round refl refl more l]
      obtain ks where ks: "ls_rounds st' = ls_rounds ?st2 @ ks" "loop_trace maxR (roundCount + 1) ks"
        by auto
      from ks(1) r2 have "ls_rounds st' = ls_rounds st @ Regular # ks" by simp
      with loop_trace_step [OF lt ks(2)] show ?thesis by blast
    qed
  qed
qed

lemma ActionImpl_default_maxRounds:
  "config = None \<or> config = Some None \<or> config = Some (Some 0)
     \<Longrightarrow> maxRounds (ActionImpl ext actionName tools provider config) = 10"
  by (auto simp: ActionImpl_def)

text \<open>
  C10.  An \<open>ActionImpl\<close> constructed without a \<open>config\<close>, without \<open>config.maxRounds\<close>
  or with \<open>maxRounds\<close> 0 has the round limit 10; every run of its loop that returns has
  performed at most 10 regular rounds, followed by at most one round that offers
  \<open>return_output\<close> only, and the round forced by the limit comes after exactly 10 regular
  rounds.
\<close>

theorem default_maxRounds_is_10:
  assumes "config = None \<or> config = Some None \<or> config = Some (Some 0)"
    and "run_rounds ext (ActionImpl ext actionName tools provider config) hooks contextTools input c = Inr st"
  shows "maxRounds (ActionImpl ext actionName tools provider config) = 10
     \<and> (\<exists>n fin. ls_rounds st = replicate n Regular @ fin \<and> n \<le> 10
           \<and> (fin = [] \<or> fin = [RequestReturn] \<or> fin = [MaxRoundsReturn])
           \<and> (fin = [MaxRoundsReturn] \<longrightarrow> n = 10))"
proof
  show m: "maxRounds (ActionImpl ext actionName tools provider config) = 10"
    by (rule ActionImpl_default_maxRounds [OF assms(1)])
  from round_loop_rounds [OF assms(2) [unfolded run_rounds_def m]]
  obtain ks where "ls_rounds st = ls_rounds (initial_state ext
      (ActionImpl ext actionName tools provider config) input c) @ ks" "loop_trace 10 0 ks"
    by blast
  then have "ls_rounds st = ks" "loop_trace 10 0 ks" by (simp_all add: initial_state_def)
  then show "\<exists>n fin. ls_rounds st = replicate n Regular @ fin \<and> n \<le> 10
           \<and> (fin = [] \<or> fin = [RequestReturn] \<or> fin = [MaxRoundsReturn])
           \<and> (fin = [MaxRoundsReturn] \<longrightarrow> n = 10)"
    unfolding loop_trace_def by auto
qed

lemma busy_run:
  "map_sum id ls_rounds
     (run_rounds test_externals
        (ActionImpl test_externals ''test_action'' [ActionMockTool ''test_tool'' False]
           (Some busy_provider) None) None [] [] empty_context)
   = Inr (replicate 10 Regular @ [MaxRoundsReturn])"
  by code_simp

theorem default_maxRounds_is_10_witness:
  "maxRounds (ActionImpl test_externals ''test_action'' [ActionMockTool ''test_tool'' False]
           (Some busy_provider) None) = 10
   \<and> map_sum id ls_rounds
       (run_rounds test_externals
          (ActionImpl test_externals ''test_action'' [ActionMockTool ''test_tool'' False]
             (Some busy_provider) None) None [] [] empty_context)
     = Inr (replicate 10 Regular @ [MaxRoundsReturn])"
proof -
  let ?a = "ActionImpl test_externals ''test_action'' [ActionMockTool ''test_tool'' False]
             (Some busy_provider) None"
  from busy_run obtain st where st: "run_rounds test_externals ?a None [] [] empty_context = Inr st"
    by (cases "run_rounds test_externals ?a None [] [] empty_context") auto
  have "None = None \<or> None = Some None \<or> None = Some (Some (0::int))" by simp
  from default_maxRounds_is_10 [OF this st] busy_run show ?thesis by blast
qed

lemma resolve_output_missing:
  "Map_get (variables (ls_context st)) (output_key actionName) = None
     \<Longrightarrow> resolve_output actionName st = Inl (TypeError ''use_tool_result'')"
  by (simp add: resolve_output_def Let_def)

theorem execute_without_output_throws:
  "execute_action test_externals
     (ActionImpl test_externals ''test_action'' [ActionMockTool ''test_tool'' False]
        (Some silent_provider) None) None [] [] empty_context
   = Inl (TypeError ''use_tool_result'')"
  by code_simp

lemma silent_run:
  "map_sum id (\<lambda>st. (variables (ls_context st), ls_rounds st))
     (run_rounds test_externals
        (ActionImpl test_externals ''test_action'' [ActionMockTool ''test_tool'' False]
           (Some silent_provider) None) None [] [] empty_context)
   = Inr ([], replicate 10 Regular @ [MaxRoundsReturn])"
  by code_simp

text \<open>
  C1 (the code differs from the claim).  When the loop has ended and the sentinel variable
  is not in the context variables, \<open>execute\<close> throws a \<open>TypeError\<close>: it reads
  \<open>outputParams.use_tool_result\<close> of \<open>undefined\<close>.  The branch that would return \<open>{}\<close>
  is never reached from there.  The witness is the provider of the test "should handle a
  failing LLM provider", which never calls a tool.
\<close>

theorem missing_output_throws:
  assumes "run_rounds ext a hooks contextTools input c = Inr st"
    and "Map_get (variables (ls_context st)) (output_key (action_name a)) = None"
  shows "execute_action ext a hooks contextTools input c = Inl (TypeError ''use_tool_result'')"
  using assms by (simp add: execute_action_def resolve_output_missing)

theorem missing_output_throws_witness:
  "map_sum id (\<lambda>st. (variables (ls_context st), ls_rounds st))
     (run_rounds test_externals
        (ActionImpl test_externals ''test_action'' [ActionMockTool ''test_tool'' False]
           (Some silent_provider) None) None [] [] empty_context)
     = Inr ([], replicate 10 Regular @ [MaxRoundsReturn])
   \<and> execute_action test_externals
        (ActionImpl test_externals ''test_action'' [ActionMockTool ''test_tool'' False]
           (Some silent_provider) None) None [] [] empty_context
     = Inl (TypeError ''use_tool_result'')"
proof -
  let ?a = "ActionImpl test_externals ''test_action'' [ActionMockTool ''test_tool'' False]
             (Some silent_provider) None"
  from silent_run obtain st where st: "run_rounds test_externals ?a None [] [] empty_context = Inr st"
    and v: "variables (ls_context st) = []"
    by (cases "run_rounds test_externals ?a None [] [] empty_context") auto
  from v have "Map_get (variables (ls_context st)) (output_key (action_name ?a)) = None"
    by (simp add: Map_get_def)
  from missing_output_throws [OF st this] silent_run show ?thesis by blast
qed












end
